theory Spec2Isabelle
  imports Main
begin

section \<open>The server: SQLite tables, credentials and route handlers (src/server.js)\<close>

subsection \<open>Stored values and tables\<close>

text \<open>
  A non-NULL value as SQLite stores it in a column of INTEGER affinity: an integer, or a
  text that is not a numeric literal. A task id taken from the URL (\<open>req.params.taskId\<close>)
  is always present, and is modelled by the value the column holds after the affinity has
  been applied (the segment \<open>7\<close> is \<open>SqlInt 7\<close>, the segment \<open>abc\<close> is
  \<open>SqlText ''abc''\<close>). A value taken from a JSON body may be absent or null: that is
  \<open>None\<close>. Floating point values are left out.
\<close>

datatype sqlval = SqlInt int | SqlText string

text \<open>
  \<open>CREATE TABLE users (id TEXT PRIMARY KEY, username TEXT UNIQUE NOT NULL,
  created_at DATETIME DEFAULT CURRENT_TIMESTAMP, last_task INTEGER DEFAULT 1)\<close>
\<close>

record user_row =
  u_id :: string
  u_username :: string
  u_created_at :: nat
  u_last_task :: "sqlval option"

text \<open>
  \<open>CREATE TABLE texts (id INTEGER PRIMARY KEY AUTOINCREMENT, user_id TEXT,
  task_id INTEGER, content TEXT, updated_at DATETIME DEFAULT CURRENT_TIMESTAMP,
  FOREIGN KEY(user_id) REFERENCES users(id))\<close>.
  The only key of the table is \<open>id\<close>.
\<close>

record text_row =
  t_id :: nat
  t_user_id :: string
  t_task_id :: sqlval
  t_content :: string
  t_updated_at :: nat

text \<open>
  \<open>CREATE TABLE progress (user_id TEXT, task_id INTEGER, completed BOOLEAN DEFAULT FALSE,
  completion_date DATETIME, PRIMARY KEY(user_id, task_id),
  FOREIGN KEY(user_id) REFERENCES users(id))\<close>
\<close>

record progress_row =
  p_user_id :: string
  p_task_id :: sqlval
  p_completed :: bool
  p_completion_date :: "nat option"

text \<open>
  The database file. Each table is the list of its rows in rowid order (a new row gets a
  rowid above every rowid in the table and goes to the end). \<open>texts_seq\<close> is the
  AUTOINCREMENT counter of \<open>texts\<close>. The server never runs \<open>PRAGMA foreign_keys = ON\<close>,
  so the FOREIGN KEY clauses are not enforced and have no counterpart here.
\<close>

record db =
  users :: "user_row list"
  texts :: "text_row list"
  progress :: "progress_row list"
  texts_seq :: nat

definition empty_db :: db where
  "empty_db = \<lparr>users = [], texts = [], progress = [], texts_seq = 0\<rparr>"

subsection \<open>The SQL statements of the handlers\<close>

text \<open>
  What a statement's callback receives in \<open>err\<close>: a message that contains
  \<open>UNIQUE constraint failed\<close>, or any other failure of the storage layer. The second
  kind does not depend on the tables; it is the input \<open>fails\<close> of each statement.
\<close>

datatype sql_error = UniqueConstraintFailed | StorageFailure

text \<open>\<open>INSERT INTO users (id, username) VALUES (?, ?)\<close>\<close>

definition insert_user :: "bool \<Rightarrow> nat \<Rightarrow> string \<Rightarrow> string \<Rightarrow> db \<Rightarrow> sql_error + db" where
  "insert_user fails now uid username d =
     (if fails then Inl StorageFailure
      else if list_ex (\<lambda>u. u_id u = uid \<or> u_username u = username) (users d)
        then Inl UniqueConstraintFailed
      else Inr (d\<lparr>users := users d @
        [\<lparr>u_id = uid, u_username = username, u_created_at = now,
          u_last_task = Some (SqlInt 1)\<rparr>]\<rparr>))"

text \<open>\<open>SELECT * FROM users WHERE username = ?\<close>, read with \<open>db.get\<close> (first row)\<close>

definition select_user_by_name :: "bool \<Rightarrow> string \<Rightarrow> db \<Rightarrow> sql_error + user_row option" where
  "select_user_by_name fails username d =
     (if fails then Inl StorageFailure
      else Inr (find (\<lambda>u. u_username u = username) (users d)))"

text \<open>\<open>SELECT username, last_task FROM users WHERE id = ?\<close>, read with \<open>db.get\<close>\<close>

definition select_user_by_id :: "bool \<Rightarrow> string \<Rightarrow> db \<Rightarrow> sql_error + user_row option" where
  "select_user_by_id fails uid d =
     (if fails then Inl StorageFailure
      else Inr (find (\<lambda>u. u_id u = uid) (users d)))"

text \<open>
  A row reaches the handler as a JavaScript object: an integer of the table arrives as a
  number, that is as the double nearest to it (ties to the even significand), a text as
  a string. An integer of a magnitude below \<open>2^53\<close> arrives as itself; a greater one
  arrives as an integer still, rounded to 53 significant bits.
\<close>

fun bit_length :: "nat \<Rightarrow> nat" where
  "bit_length n = (if n = 0 then 0 else Suc (bit_length (n div 2)))"

declare bit_length.simps [simp del]

definition nearest_double :: "nat \<Rightarrow> nat" where
  "nearest_double a =
     (if bit_length a \<le> 53 then a
      else let e = bit_length a - 53;
               q = a div 2 ^ e;
               r = a mod 2 ^ e;
               half = 2 ^ (e - 1)
           in (if half < r \<or> (r = half \<and> odd q) then Suc q else q) * 2 ^ e)"

definition to_double :: "int \<Rightarrow> int" where
  "to_double n =
     (if n < 0 then - int (nearest_double (nat (- n))) else int (nearest_double (nat n)))"

fun to_js :: "sqlval \<Rightarrow> sqlval" where
  "to_js (SqlInt n) = SqlInt (to_double n)"
| "to_js (SqlText s) = SqlText s"

text \<open>A value that arrives as itself: a text, or an integer of a magnitude below \<open>2^53\<close>.\<close>

fun js_safe :: "sqlval \<Rightarrow> bool" where
  "js_safe (SqlInt n) = (\<bar>n\<bar> < 9007199254740992)"
| "js_safe (SqlText s) = True"

text \<open>
  The order of the values of a column in an index: integers before texts, integers by
  value, texts byte by byte (the BINARY collation), a proper prefix first.
\<close>

fun bytes_le :: "string \<Rightarrow> string \<Rightarrow> bool" where
  "bytes_le [] t = True"
| "bytes_le (a # s) [] = False"
| "bytes_le (a # s) (b # t) =
     ((of_char a :: nat) < of_char b \<or> (a = b \<and> bytes_le s t))"

fun sqlval_le :: "sqlval \<Rightarrow> sqlval \<Rightarrow> bool" where
  "sqlval_le (SqlInt m) (SqlInt n) = (m \<le> n)"
| "sqlval_le (SqlInt m) (SqlText t) = True"
| "sqlval_le (SqlText s) (SqlInt n) = False"
| "sqlval_le (SqlText s) (SqlText t) = bytes_le s t"

fun insert_by_task :: "progress_row \<Rightarrow> progress_row list \<Rightarrow> progress_row list" where
  "insert_by_task p [] = [p]"
| "insert_by_task p (q # qs) =
     (if sqlval_le (p_task_id p) (p_task_id q) then p # q # qs
      else q # insert_by_task p qs)"

fun by_task :: "progress_row list \<Rightarrow> progress_row list" where
  "by_task [] = []"
| "by_task (p # ps) = insert_by_task p (by_task ps)"

text \<open>
  \<open>SELECT task_id, completed FROM progress WHERE user_id = ?\<close>, read with \<open>db.all\<close>.
  The statement has no ORDER BY; SQLite answers it from the index of the primary key
  \<open>(user_id, task_id)\<close>, so the rows of the learner come in the order of \<open>task_id\<close>, and
  each \<open>task_id\<close> comes as a JavaScript value.
\<close>

definition select_progress :: "bool \<Rightarrow> string \<Rightarrow> db \<Rightarrow> sql_error + (sqlval \<times> bool) list" where
  "select_progress fails uid d =
     (if fails then Inl StorageFailure
      else Inr (map (\<lambda>p. (to_js (p_task_id p), p_completed p))
                  (by_task (filter (\<lambda>p. p_user_id p = uid) (progress d)))))"

text \<open>\<open>UPDATE users SET last_task = ? WHERE id = ?\<close>\<close>

definition update_last_task :: "bool \<Rightarrow> sqlval option \<Rightarrow> string \<Rightarrow> db \<Rightarrow> sql_error + db" where
  "update_last_task fails taskId uid d =
     (if fails then Inl StorageFailure
      else Inr (d\<lparr>users :=
        map (\<lambda>u. if u_id u = uid then u\<lparr>u_last_task := taskId\<rparr> else u) (users d)\<rparr>))"

text \<open>
  \<open>INSERT OR REPLACE INTO texts (user_id, task_id, content, updated_at)
  VALUES (?, ?, ?, CURRENT_TIMESTAMP)\<close>.
  The statement gives no \<open>id\<close>, so the row gets the next AUTOINCREMENT value, one above
  the counter and above every \<open>id\<close> in the table. OR REPLACE deletes the rows that clash
  with the new row on a key of the table; the only key is \<open>id\<close>, the new \<open>id\<close> is in no
  row, and so no row is deleted.
\<close>

definition next_text_id :: "db \<Rightarrow> nat" where
  "next_text_id d = Suc (fold max (map t_id (texts d)) (texts_seq d))"

definition insert_or_replace_text ::
  "bool \<Rightarrow> nat \<Rightarrow> string \<Rightarrow> sqlval \<Rightarrow> string \<Rightarrow> db \<Rightarrow> sql_error + db" where
  "insert_or_replace_text fails now uid taskId content d =
     (if fails then Inl StorageFailure
      else Inr (d\<lparr>texts := texts d @
               [\<lparr>t_id = next_text_id d, t_user_id = uid, t_task_id = taskId,
                 t_content = content, t_updated_at = now\<rparr>],
             texts_seq := next_text_id d\<rparr>))"

text \<open>
  \<open>SELECT content FROM texts WHERE user_id = ? AND task_id = ?\<close>, read with \<open>db.get\<close>:
  the first row of the result. No index covers the two columns, so SQLite scans the table
  in rowid order and the first row is the one with the least \<open>id\<close>.
\<close>

definition select_text :: "bool \<Rightarrow> string \<Rightarrow> sqlval \<Rightarrow> db \<Rightarrow> sql_error + text_row option" where
  "select_text fails uid taskId d =
     (if fails then Inl StorageFailure
      else Inr (find (\<lambda>r. t_user_id r = uid \<and> t_task_id r = taskId) (texts d)))"

text \<open>
  \<open>INSERT OR REPLACE INTO progress (user_id, task_id, completed, completion_date)
  VALUES (?, ?, TRUE, CURRENT_TIMESTAMP)\<close>.
  The primary key is \<open>(user_id, task_id)\<close>: a row with the same pair is deleted and the
  new row is inserted.
\<close>

definition insert_or_replace_progress ::
  "bool \<Rightarrow> nat \<Rightarrow> string \<Rightarrow> sqlval \<Rightarrow> db \<Rightarrow> sql_error + db" where
  "insert_or_replace_progress fails now uid taskId d =
     (if fails then Inl StorageFailure
      else Inr (d\<lparr>progress :=
        filter (\<lambda>p. \<not> (p_user_id p = uid \<and> p_task_id p = taskId)) (progress d) @
        [\<lparr>p_user_id = uid, p_task_id = taskId, p_completed = True,
          p_completion_date = Some now\<rparr>]\<rparr>))"

subsection \<open>Credentials\<close>

text \<open>
  A token is either a JSON Web Token, with the \<open>userId\<close> of its payload, its \<open>iat\<close> and
  \<open>exp\<close> claims (seconds) and the key its signature was made with, or a string that is
  no token. Signatures are taken as unforgeable: a token verifies under a key exactly
  when it was signed with that key.
\<close>

datatype token = Jwt (jwt_userId: string) (jwt_iat: nat) (jwt_exp: nat) (jwt_key: string)
  | Malformed string

text \<open>\<open>jwt.sign({ userId }, JWT_SECRET, { expiresIn: '30d' })\<close>\<close>

definition jwt_sign :: "string \<Rightarrow> nat \<Rightarrow> string \<Rightarrow> token" where
  "jwt_sign secret now uid = Jwt uid now (now + 30 * 24 * 60 * 60) secret"

text \<open>\<open>jwt.verify(token, JWT_SECRET, ...)\<close>: a token is expired from \<open>exp\<close> on.\<close>

fun jwt_verify :: "string \<Rightarrow> nat \<Rightarrow> token \<Rightarrow> string option" where
  "jwt_verify secret now (Jwt uid iat ex k) =
     (if k = secret \<and> now < ex then Some uid else None)"
| "jwt_verify secret now (Malformed s) = None"

subsection \<open>Responses\<close>

datatype body =
    ErrorBody string
  | AuthBody token string string "sqlval option"
  | ProgressBody string "sqlval option" "(sqlval \<times> bool) list"
  | SuccessBody
  | ContentBody string

text \<open>
  A handler replies with a status and a JSON body, or throws inside a database callback,
  which nothing catches.
\<close>

datatype outcome = Reply nat body | Uncaught

text \<open>
  The middleware \<open>verifyToken\<close>. The argument is the second word of the Authorization
  header, \<open>None\<close> when the header is absent or its second word is missing or empty.
\<close>

definition verifyToken :: "string \<Rightarrow> nat \<Rightarrow> token option \<Rightarrow> outcome + string" where
  "verifyToken secret now hdr =
     (case hdr of
        None \<Rightarrow> Inl (Reply 401 (ErrorBody ''No token provided''))
      | Some t \<Rightarrow>
          (case jwt_verify secret now t of
             None \<Rightarrow> Inl (Reply 401 (ErrorBody ''Invalid token''))
           | Some uid \<Rightarrow> Inr uid))"

text \<open>
  JavaScript's \<open>user.last_task || 1\<close>, on the value as the row object carries it: null, 0
  and the empty string are falsy.
\<close>

fun or_one :: "sqlval option \<Rightarrow> sqlval option" where
  "or_one None = Some (SqlInt 1)"
| "or_one (Some (SqlInt n)) = (if n = 0 then Some (SqlInt 1) else Some (SqlInt n))"
| "or_one (Some (SqlText s)) = (if s = [] then Some (SqlInt 1) else Some (SqlText s))"

definition last_task_or_one :: "user_row \<Rightarrow> sqlval option" where
  "last_task_or_one u = or_one (map_option to_js (u_last_task u))"

subsection \<open>Route handlers\<close>

text \<open>
  What a request meets besides its own fields: the clock (seconds), the identifier that
  \<open>uuidv4()\<close> returns for it, and whether the storage layer fails on the first and on
  the second statement the handler runs. A request is one that reaches its handler: the
  rate limiter and the body parser in front of the routes are not part of the model.
  Usernames and contents are strings.
\<close>

record env =
  clock :: nat
  uuidv4 :: string
  fails1 :: bool
  fails2 :: bool

text \<open>\<open>app.post('/api/auth/register', ...)\<close>; \<open>!username\<close> is true of the empty string.\<close>

definition post_auth_register :: "string \<Rightarrow> env \<Rightarrow> string \<Rightarrow> db \<Rightarrow> outcome \<times> db" where
  "post_auth_register secret e username d =
     (if username = [] \<or> length username < 3
        then (Reply 400 (ErrorBody ''Username must be at least 3 characters''), d)
      else let userId = uuidv4 e in
        (case insert_user (fails1 e) (clock e) userId username d of
           Inl err \<Rightarrow>
             (if err = UniqueConstraintFailed
                then (Reply 409 (ErrorBody ''Username already exists''), d)
              else (Reply 500 (ErrorBody ''Database error''), d))
         | Inr d' \<Rightarrow>
             (Reply 200 (AuthBody (jwt_sign secret (clock e) userId) username userId
                (Some (SqlInt 1))), d')))"

text \<open>\<open>app.post('/api/auth/login', ...)\<close>\<close>

definition post_auth_login :: "string \<Rightarrow> env \<Rightarrow> string \<Rightarrow> db \<Rightarrow> outcome \<times> db" where
  "post_auth_login secret e username d =
     (case select_user_by_name (fails1 e) username d of
        Inl err \<Rightarrow> (Reply 500 (ErrorBody ''Database error''), d)
      | Inr None \<Rightarrow> (Reply 404 (ErrorBody ''User not found''), d)
      | Inr (Some user) \<Rightarrow>
          (Reply 200 (AuthBody (jwt_sign secret (clock e) (u_id user)) (u_username user)
             (u_id user) (last_task_or_one user)), d))"

text \<open>
  \<open>app.get('/api/user/progress', verifyToken, ...)\<close>. The second query runs whether or
  not the first found a row; \<open>user.username\<close> throws when it did not.
\<close>

definition get_user_progress :: "string \<Rightarrow> env \<Rightarrow> token option \<Rightarrow> db \<Rightarrow> outcome \<times> db" where
  "get_user_progress secret e hdr d =
     (case verifyToken secret (clock e) hdr of
        Inl r \<Rightarrow> (r, d)
      | Inr userId \<Rightarrow>
          (case select_user_by_id (fails1 e) userId d of
             Inl err \<Rightarrow> (Reply 500 (ErrorBody ''Database error''), d)
           | Inr user \<Rightarrow>
               (case select_progress (fails2 e) userId d of
                  Inl err \<Rightarrow> (Reply 500 (ErrorBody ''Database error''), d)
                | Inr prog \<Rightarrow>
                    (case user of
                       None \<Rightarrow> (Uncaught, d)
                     | Some u \<Rightarrow>
                         (Reply 200 (ProgressBody (u_username u) (last_task_or_one u)
                            prog), d)))))"

text \<open>\<open>app.post('/api/user/last-task', verifyToken, ...)\<close>\<close>

definition post_user_last_task ::
  "string \<Rightarrow> env \<Rightarrow> token option \<Rightarrow> sqlval option \<Rightarrow> db \<Rightarrow> outcome \<times> db" where
  "post_user_last_task secret e hdr taskId d =
     (case verifyToken secret (clock e) hdr of
        Inl r \<Rightarrow> (r, d)
      | Inr userId \<Rightarrow>
          (case update_last_task (fails1 e) taskId userId d of
             Inl err \<Rightarrow> (Reply 500 (ErrorBody ''Database error''), d)
           | Inr d' \<Rightarrow> (Reply 200 SuccessBody, d')))"

text \<open>\<open>app.post('/api/tasks/:taskId/text', verifyToken, ...)\<close>\<close>

definition post_task_text ::
  "string \<Rightarrow> env \<Rightarrow> token option \<Rightarrow> sqlval \<Rightarrow> string \<Rightarrow> db \<Rightarrow> outcome \<times> db" where
  "post_task_text secret e hdr taskId content d =
     (case verifyToken secret (clock e) hdr of
        Inl r \<Rightarrow> (r, d)
      | Inr userId \<Rightarrow>
          (case insert_or_replace_text (fails1 e) (clock e) userId taskId content d of
             Inl err \<Rightarrow> (Reply 500 (ErrorBody ''Database error''), d)
           | Inr d' \<Rightarrow> (Reply 200 SuccessBody, d')))"

text \<open>\<open>app.get('/api/tasks/:taskId/text', verifyToken, ...)\<close>\<close>

definition get_task_text ::
  "string \<Rightarrow> env \<Rightarrow> token option \<Rightarrow> sqlval \<Rightarrow> db \<Rightarrow> outcome \<times> db" where
  "get_task_text secret e hdr taskId d =
     (case verifyToken secret (clock e) hdr of
        Inl r \<Rightarrow> (r, d)
      | Inr userId \<Rightarrow>
          (case select_text (fails1 e) userId taskId d of
             Inl err \<Rightarrow> (Reply 500 (ErrorBody ''Database error''), d)
           | Inr result \<Rightarrow>
               (Reply 200 (ContentBody
                  (case result of Some r \<Rightarrow> t_content r | None \<Rightarrow> [])), d)))"

text \<open>\<open>app.post('/api/tasks/:taskId/complete', verifyToken, ...)\<close>\<close>

definition post_task_complete ::
  "string \<Rightarrow> env \<Rightarrow> token option \<Rightarrow> sqlval \<Rightarrow> db \<Rightarrow> outcome \<times> db" where
  "post_task_complete secret e hdr taskId d =
     (case verifyToken secret (clock e) hdr of
        Inl r \<Rightarrow> (r, d)
      | Inr userId \<Rightarrow>
          (case insert_or_replace_progress (fails1 e) (clock e) userId taskId d of
             Inl err \<Rightarrow> (Reply 500 (ErrorBody ''Database error''), d)
           | Inr d' \<Rightarrow> (Reply 200 SuccessBody, d')))"

subsection \<open>Requests and sequences of requests\<close>

text \<open>The five operations behind \<open>verifyToken\<close>, with the fields each request carries.\<close>

datatype store_op =
    GetProgress
  | SetLastTask "sqlval option"
  | SaveDraft sqlval string
  | LoadDraft sqlval
  | CompleteTask sqlval

fun protected_route :: "string \<Rightarrow> env \<Rightarrow> token option \<Rightarrow> store_op \<Rightarrow> db \<Rightarrow> outcome \<times> db" where
  "protected_route secret e hdr GetProgress d = get_user_progress secret e hdr d"
| "protected_route secret e hdr (SetLastTask taskId) d = post_user_last_task secret e hdr taskId d"
| "protected_route secret e hdr (SaveDraft taskId content) d =
     post_task_text secret e hdr taskId content d"
| "protected_route secret e hdr (LoadDraft taskId) d = get_task_text secret e hdr taskId d"
| "protected_route secret e hdr (CompleteTask taskId) d = post_task_complete secret e hdr taskId d"

datatype api_call = Register string | Login string | Protected "token option" store_op

fun serve :: "string \<Rightarrow> env \<Rightarrow> api_call \<Rightarrow> db \<Rightarrow> outcome \<times> db" where
  "serve secret e (Register username) d = post_auth_register secret e username d"
| "serve secret e (Login username) d = post_auth_login secret e username d"
| "serve secret e (Protected hdr op) d = protected_route secret e hdr op d"

text \<open>
  The database after a sequence of requests, one after the other. A handler that throws
  has changed nothing, and the file is there for the restarted process.
\<close>

fun run :: "string \<Rightarrow> (env \<times> api_call) list \<Rightarrow> db \<Rightarrow> db" where
  "run secret [] d = d"
| "run secret ((e, c) # cs) d = run secret cs (snd (serve secret e c d))"

section \<open>The client: class MOOCApp (src/public/app.js and the copy in src/server.js)\<close>

text \<open>
  The repository holds two copies of the client class: \<open>src/public/app.js\<close>, which the
  server serves from its \<open>public\<close> directory, and a second copy that follows the server
  code in \<open>src/server.js\<close>. Their \<open>scheduleAutoSave\<close>, \<open>saveCurrentText\<close>,
  \<open>loadUserProgress\<close>, \<open>loadTaskText\<close> and \<open>updateLastTask\<close> are the same text; their
  \<open>completeTask\<close> differs in how it moves to the next task.
\<close>

datatype copy = PublicCopy | EmbeddedCopy

text \<open>The requests the course screen sends with \<open>fetch\<close>.\<close>

datatype fetch_req =
    PostText int string
  | PostComplete int
  | GetUserProgress
  | GetText int
  | PostLastTask int

text \<open>
  What is left of an async function when it awaits a \<open>fetch\<close>: the rest of
  \<open>saveCurrentText\<close> called from a click or a timer, the rest of \<open>saveCurrentText\<close>
  and of the \<open>completeTask\<close> that awaits it, the rest of \<open>completeTask\<close> after its own
  request, the rest of \<open>loadUserProgress\<close> and of the \<open>completeTask\<close> that awaits it,
  the rest of \<open>loadTaskText\<close> and of the \<open>loadTask\<close> that awaits it, and the rest of
  \<open>updateLastTask\<close> and of its \<open>loadTask\<close>.
\<close>

datatype cont =
    SaveOnly
  | SaveThenComplete
  | Completed
  | ProgressRefreshed
  | TextLoaded int
  | LastTaskUpdated

text \<open>
  How a \<open>fetch\<close> ends: the promise rejects, or it resolves with a response that is not
  \<open>ok\<close>, or with an \<open>ok\<close> response whose JSON body has no field the client reads, has
  \<open>content\<close>, or has \<open>username\<close>, \<open>lastTask\<close> and \<open>progress\<close>.
\<close>

datatype result =
    Rejected
  | NotOk
  | OkPlain
  | OkText string
  | OkProgress string int "(int \<times> bool) list"

fun ok :: "result \<Rightarrow> bool" where
  "ok Rejected = False"
| "ok NotOk = False"
| "ok OkPlain = True"
| "ok (OkText s) = True"
| "ok (OkProgress u l p) = True"

text \<open>
  The functions the client passes to \<open>setTimeout\<close>: the save of \<open>scheduleAutoSave\<close>,
  the move to the next task of \<open>completeTask\<close> (embedded copy), the removal of the
  completion message in \<open>showCompletionMessage\<close> (embedded copy), and the hiding of the
  error text in \<open>showError\<close>.
\<close>

datatype callback = SaveCallback | AdvanceCallback | RemoveMessage | HideError

datatype save_status = NoStatus | Saving | Saved | SaveError

text \<open>
  The model covers the course screen once the learner is signed in. What only changes
  the document (rendering, the progress bar, the word counter, the text of messages) is
  left out, and so are the requests of sign-in and sign-out; every \<open>setTimeout\<close> of the
  class is in the model, also those whose callbacks only change the document.

  The state of the page: the fields of the object, the value of the text editor, the
  class of the save status element, and what the browser holds for the page: the clock
  (milliseconds), the armed timers (identifier, due time, callback), the next timer
  identifier, the requests in flight (identifier, request, continuation), the next
  request identifier, and the log of every request sent so far.
\<close>

record client =
  currentTask :: int
  currentUser :: "(string \<times> int \<times> (int \<times> bool) list) option"
  saveTimer :: "nat option"
  editor :: string
  status :: save_status
  time :: nat
  timers :: "(nat \<times> nat \<times> callback) list"
  next_timer :: nat
  pending :: "(nat \<times> fetch_req \<times> cont) list"
  next_req :: nat
  sent :: "fetch_req list"

text \<open>The state the constructor leaves; timer identifiers are positive.\<close>

definition init_client :: client where
  "init_client = \<lparr>currentTask = 1, currentUser = None, saveTimer = None, editor = [],
     status = NoStatus, time = 0, timers = [], next_timer = 1, pending = [], next_req = 0,
     sent = []\<rparr>"

definition setTimeout :: "callback \<Rightarrow> nat \<Rightarrow> client \<Rightarrow> nat \<times> client" where
  "setTimeout cb delay c =
     (next_timer c,
      c\<lparr>timers := timers c @ [(next_timer c, time c + delay, cb)],
        next_timer := Suc (next_timer c)\<rparr>)"

definition clearTimeout :: "nat \<Rightarrow> client \<Rightarrow> client" where
  "clearTimeout h c = c\<lparr>timers := filter (\<lambda>t. fst t \<noteq> h) (timers c)\<rparr>"

definition fetch :: "fetch_req \<Rightarrow> cont \<Rightarrow> client \<Rightarrow> client" where
  "fetch r k c =
     c\<lparr>pending := pending c @ [(next_req c, r, k)], next_req := Suc (next_req c),
       sent := sent c @ [r]\<rparr>"

definition setSaveStatus :: "save_status \<Rightarrow> client \<Rightarrow> client" where
  "setSaveStatus s c = c\<lparr>status := s\<rparr>"

text \<open>
  \<open>scheduleAutoSave()\<close>. \<open>if (this.saveTimer)\<close> is false of \<open>null\<close> and of 0.
\<close>

definition scheduleAutoSave :: "client \<Rightarrow> client" where
  "scheduleAutoSave c =
     (let c1 = setSaveStatus Saving c;
          c2 = (case saveTimer c1 of
                  Some h \<Rightarrow> if h \<noteq> 0 then clearTimeout h c1 else c1
                | None \<Rightarrow> c1);
          (h, c3) = setTimeout SaveCallback 2000 c2
      in c3\<lparr>saveTimer := Some h\<rparr>)"

text \<open>
  \<open>saveCurrentText()\<close> up to its \<open>await fetch(...)\<close>; \<open>k\<close> says who called it.
\<close>

definition saveCurrentText :: "cont \<Rightarrow> client \<Rightarrow> client" where
  "saveCurrentText k c = fetch (PostText (currentTask c) (editor c)) k c"

text \<open>The rest of \<open>saveCurrentText()\<close>, once the request has ended.\<close>

definition saveCurrentText_rest :: "result \<Rightarrow> client \<Rightarrow> client" where
  "saveCurrentText_rest r c = (if ok r then setSaveStatus Saved c else setSaveStatus SaveError c)"

text \<open>\<open>loadTask(taskId)\<close> up to the \<open>await fetch(...)\<close> of \<open>loadTaskText\<close>.\<close>

definition loadTask :: "int \<Rightarrow> client \<Rightarrow> client" where
  "loadTask taskId c = fetch (GetText taskId) (TextLoaded taskId) (c\<lparr>currentTask := taskId\<rparr>)"

text \<open>
  The rest of \<open>loadTaskText(taskId)\<close>, \<open>document.getElementById('text-editor').value =
  data.content || ''\<close> on an \<open>ok\<close> response, and then \<open>loadTask\<close> up to the
  \<open>await fetch(...)\<close> of \<open>updateLastTask\<close>.
\<close>

definition loadTaskText_rest :: "int \<Rightarrow> result \<Rightarrow> client \<Rightarrow> client" where
  "loadTaskText_rest taskId r c =
     fetch (PostLastTask taskId) LastTaskUpdated
       (if ok r then c\<lparr>editor := (case r of OkText s \<Rightarrow> s | _ \<Rightarrow> [])\<rparr> else c)"

text \<open>\<open>completeTask()\<close> up to the \<open>await fetch(...)\<close> of \<open>saveCurrentText\<close>.\<close>

definition completeTask :: "client \<Rightarrow> client" where
  "completeTask c = saveCurrentText SaveThenComplete c"

text \<open>
  \<open>showCompletionMessage()\<close> (embedded copy) and \<open>showError(message)\<close>: each puts a text
  into the document and arms a timer that takes it away.
\<close>

definition showCompletionMessage :: "client \<Rightarrow> client" where
  "showCompletionMessage c = snd (setTimeout RemoveMessage 3000 c)"

definition showError :: "client \<Rightarrow> client" where
  "showError c = snd (setTimeout HideError 5000 c)"

text \<open>
  The end of \<open>completeTask()\<close>, after \<open>await this.loadUserProgress()\<close> has set
  \<open>currentUser\<close> and \<open>currentTask\<close>. The embedded copy shows the completion message and
  then, below task 19, arms a timer of 2000 ms; the copy in \<open>public\<close> shows no message
  and, below task 19, calls \<open>loadTask\<close> at once.
\<close>

definition completeTask_advance :: "copy \<Rightarrow> client \<Rightarrow> client" where
  "completeTask_advance cp c =
     (case cp of
        EmbeddedCopy \<Rightarrow>
          (let c1 = showCompletionMessage c
           in if currentTask c1 < 19 then snd (setTimeout AdvanceCallback 2000 c1) else c1)
      | PublicCopy \<Rightarrow>
          (if currentTask c < 19 then loadTask (currentTask c + 1) c else c))"

text \<open>
  A request ends and the function that awaits it goes on. A rejected or failed progress
  request makes \<open>loadUserProgress\<close> throw into the \<open>catch\<close> of \<open>completeTask\<close>, which
  only logs. The server's \<open>ok\<close> response to \<open>GET /api/user/progress\<close> always carries
  \<open>username\<close>, \<open>lastTask\<close> and \<open>progress\<close>; an \<open>ok\<close> response without them is no
  behaviour of the server, and the state is left as it is.
\<close>

fun continue :: "copy \<Rightarrow> cont \<Rightarrow> result \<Rightarrow> client \<Rightarrow> client" where
  "continue cp SaveOnly r c = saveCurrentText_rest r c"
| "continue cp SaveThenComplete r c =
     (let c1 = saveCurrentText_rest r c in fetch (PostComplete (currentTask c1)) Completed c1)"
| "continue cp Completed r c = (if ok r then fetch GetUserProgress ProgressRefreshed c else c)"
| "continue cp ProgressRefreshed (OkProgress u l p) c =
     completeTask_advance cp (c\<lparr>currentUser := Some (u, l, p), currentTask := l\<rparr>)"
| "continue cp ProgressRefreshed r c = c"
| "continue cp (TextLoaded taskId) r c = loadTaskText_rest taskId r c"
| "continue cp LastTaskUpdated r c = c"

text \<open>The callbacks given to \<open>setTimeout\<close>.\<close>

fun fire :: "callback \<Rightarrow> client \<Rightarrow> client" where
  "fire SaveCallback c = saveCurrentText SaveOnly c"
| "fire AdvanceCallback c = loadTask (currentTask c + 1) c"
| "fire RemoveMessage c = c"
| "fire HideError c = c"

fun fire_all :: "callback list \<Rightarrow> client \<Rightarrow> client" where
  "fire_all [] c = c"
| "fire_all (cb # cbs) c = fire_all cbs (fire cb c)"

text \<open>
  The clock moves on by \<open>dt\<close>: the timers that have come due leave the table and their
  callbacks run, the earlier due first, and of two due together the one armed first.
\<close>

definition wait :: "nat \<Rightarrow> client \<Rightarrow> client" where
  "wait dt c =
     (let t = time c + dt;
          due = filter (\<lambda>x. fst (snd x) \<le> t) (timers c);
          rest = filter (\<lambda>x. \<not> fst (snd x) \<le> t) (timers c)
      in fire_all (map (\<lambda>x. snd (snd x)) (sort_key (\<lambda>x. fst (snd x)) due))
           (c\<lparr>time := t, timers := rest\<rparr>))"

text \<open>The request with identifier \<open>i\<close> ends; an identifier not in flight changes nothing.\<close>

definition resolve :: "copy \<Rightarrow> nat \<Rightarrow> result \<Rightarrow> client \<Rightarrow> client" where
  "resolve cp i r c =
     (case find (\<lambda>x. fst x = i) (pending c) of
        None \<Rightarrow> c
      | Some (j, q, k) \<Rightarrow> continue cp k r (c\<lparr>pending := filter (\<lambda>x. fst x \<noteq> i) (pending c)\<rparr>))"

text \<open>
  What happens on the course screen: the learner changes the editor to a new value (the
  \<open>input\<close> listener runs \<open>scheduleAutoSave\<close>), clicks the save button, the complete button
  or a task link, time passes, or a request ends; and, of the sign-in form, a failed
  attempt, which runs \<open>showError\<close>.
\<close>

datatype event =
    Input string
  | ClickSave
  | ClickComplete
  | ClickTask int
  | Wait nat
  | Resolve nat result
  | FailedSignIn

fun step :: "copy \<Rightarrow> event \<Rightarrow> client \<Rightarrow> client" where
  "step cp (Input s) c = scheduleAutoSave (c\<lparr>editor := s\<rparr>)"
| "step cp ClickSave c = saveCurrentText SaveOnly c"
| "step cp ClickComplete c = completeTask c"
| "step cp (ClickTask taskId) c = loadTask taskId c"
| "step cp (Wait dt) c = wait dt c"
| "step cp (Resolve i r) c = resolve cp i r c"
| "step cp FailedSignIn c = showError c"

fun run_events :: "copy \<Rightarrow> event list \<Rightarrow> client \<Rightarrow> client" where
  "run_events cp [] c = c"
| "run_events cp (ev # evs) c = run_events cp evs (step cp ev c)"

text \<open>The number of \<open>POST /api/tasks/t/text\<close> requests in flight.\<close>

fun is_save_for :: "int \<Rightarrow> fetch_req \<Rightarrow> bool" where
  "is_save_for t (PostText t' s) = (t' = t)"
| "is_save_for t _ = False"

definition in_flight :: "int \<Rightarrow> client \<Rightarrow> nat" where
  "in_flight t c = length (filter (\<lambda>x. is_save_for t (fst (snd x))) (pending c))"

text \<open>The contents of the save requests sent so far, in the order they were sent.\<close>

fun save_content :: "fetch_req \<Rightarrow> string option" where
  "save_content (PostText t s) = Some s"
| "save_content _ = None"

definition saves :: "client \<Rightarrow> string list" where
  "saves c = List.map_filter save_content (sent c)"

definition armed :: "callback \<Rightarrow> client \<Rightarrow> (nat \<times> nat \<times> callback) list" where
  "armed cb c = filter (\<lambda>x. snd (snd x) = cb) (timers c)"

section \<open>Notions the properties are stated with\<close>

subsection \<open>Server\<close>

text \<open>The Draft rows and the Progress rows of a learner and a task.\<close>

definition draft_rows :: "string \<Rightarrow> sqlval \<Rightarrow> db \<Rightarrow> text_row list" where
  "draft_rows uid taskId d = filter (\<lambda>r. t_user_id r = uid \<and> t_task_id r = taskId) (texts d)"

definition progress_rows :: "string \<Rightarrow> sqlval \<Rightarrow> db \<Rightarrow> progress_row list" where
  "progress_rows uid taskId d =
     filter (\<lambda>p. p_user_id p = uid \<and> p_task_id p = taskId) (progress d)"

text \<open>All that the database holds of one learner: the rows that carry the learner's id.\<close>

definition rows_of :: "string \<Rightarrow> db \<Rightarrow> user_row list \<times> text_row list \<times> progress_row list" where
  "rows_of uid d =
     (filter (\<lambda>u. u_id u = uid) (users d),
      filter (\<lambda>r. t_user_id r = uid) (texts d),
      filter (\<lambda>p. p_user_id p = uid) (progress d))"

text \<open>A task identifier of a course of \<open>N\<close> tasks.\<close>

fun valid_task :: "int \<Rightarrow> sqlval option \<Rightarrow> bool" where
  "valid_task N (Some (SqlInt n)) = (1 \<le> n \<and> n \<le> N)"
| "valid_task N (Some (SqlText s)) = False"
| "valid_task N None = False"

definition lastTask_in_range :: "int \<Rightarrow> db \<Rightarrow> bool" where
  "lastTask_in_range N d = list_all (\<lambda>u. valid_task N (u_last_task u)) (users d)"

text \<open>A request that is not a last-task update, or is one with a task id in range.\<close>

fun sets_valid_task :: "int \<Rightarrow> api_call \<Rightarrow> bool" where
  "sets_valid_task N (Protected hdr (SetLastTask taskId)) = valid_task N taskId"
| "sets_valid_task N _ = True"

text \<open>
  A reply to \<open>GET /api/user/progress\<close> shows a task completed: the list has an entry of
  the task with \<open>completed: true\<close> and none with \<open>completed: false\<close>.
\<close>

fun shows_completed :: "sqlval \<Rightarrow> outcome \<Rightarrow> bool" where
  "shows_completed taskId (Reply st (ProgressBody u l prog)) =
     ((taskId, True) \<in> set prog \<and> (taskId, False) \<notin> set prog)"
| "shows_completed taskId _ = False"

text \<open>The list \<open>progress\<close> of a reply to \<open>GET /api/user/progress\<close>.\<close>

fun reply_entries :: "outcome \<Rightarrow> (sqlval \<times> bool) list" where
  "reply_entries (Reply st (ProgressBody u l prog)) = prog"
| "reply_entries r = []"

text \<open>The entries of a learner, as \<open>GET /api/user/progress\<close> selects them.\<close>

definition progress_entries :: "string \<Rightarrow> db \<Rightarrow> (sqlval \<times> bool) list" where
  "progress_entries uid d =
     (case select_progress False uid d of Inr prog \<Rightarrow> prog | Inl err \<Rightarrow> [])"

text \<open>
  The table \<open>progress\<close> marks a task completed for a learner: it has a row of the pair,
  and every row of the pair has \<open>completed\<close> set.
\<close>

definition marked_completed :: "string \<Rightarrow> sqlval \<Rightarrow> db \<Rightarrow> bool" where
  "marked_completed uid taskId d =
     (progress_rows uid taskId d \<noteq> [] \<and> list_all p_completed (progress_rows uid taskId d))"

text \<open>The learner has a row in \<open>users\<close>.\<close>

definition registered :: "string \<Rightarrow> db \<Rightarrow> bool" where
  "registered uid d = list_ex (\<lambda>u. u_id u = uid) (users d)"

text \<open>A request environment with the clock at 100 s and nothing failing.\<close>

definition env0 :: env where
  "env0 = \<lparr>clock = 100, uuidv4 = ''u-1'', fails1 = False, fails2 = False\<rparr>"

text \<open>The Authorization header of the learner that \<open>env0\<close> registers, under the key \<open>''k''\<close>.\<close>

definition bearer0 :: "token option" where
  "bearer0 = Some (jwt_sign ''k'' 100 ''u-1'')"

text \<open>A second learner: the environment that registers it, and its header.\<close>

definition env1 :: env where
  "env1 = \<lparr>clock = 200, uuidv4 = ''u-2'', fails1 = False, fails2 = False\<rparr>"

definition bearer1 :: "token option" where
  "bearer1 = Some (jwt_sign ''k'' 200 ''u-2'')"

text \<open>Two learners, each with a draft for task 1; and the same with one more draft of the second.\<close>

definition two_learners :: db where
  "two_learners = run ''k''
     [(env0, Register ''alice''), (env1, Register ''bob''),
      (env0, Protected bearer0 (SaveDraft (SqlInt 1) ''by alice'')),
      (env1, Protected bearer1 (SaveDraft (SqlInt 1) ''by bob''))] empty_db"

definition two_learners' :: db where
  "two_learners' = run ''k''
     [(env1, Protected bearer1 (SaveDraft (SqlInt 2) ''more by bob''))] two_learners"

text \<open>The database with the first learner registered, and a header for an id that no learner has.\<close>

definition alice_only :: db where
  "alice_only = run ''k'' [(env0, Register ''alice'')] empty_db"

definition ghost :: "token option" where
  "ghost = Some (jwt_sign ''k'' 100 ''nobody'')"

subsection \<open>Client\<close>

text \<open>
  The timer table and \<open>this.saveTimer\<close> fit together: every armed save timer is the one
  \<open>this.saveTimer\<close> names, identifiers are positive, below the next one, and pairwise
  different.
\<close>

definition sched_inv :: "client \<Rightarrow> bool" where
  "sched_inv c =
     (list_all (\<lambda>x. snd (snd x) = SaveCallback \<longrightarrow> saveTimer c = Some (fst x)) (timers c)
      \<and> list_all (\<lambda>x. 0 < fst x \<and> fst x < next_timer c) (timers c)
      \<and> 0 < next_timer c
      \<and> distinct (map fst (timers c)))"

text \<open>
  A burst of edits: a first edit, and then edits each after a gap; and whether every gap
  is below the debounce interval.
\<close>

fun burst :: "string \<Rightarrow> (nat \<times> string) list \<Rightarrow> event list" where
  "burst s [] = [Input s]"
| "burst s ((gap, s') # edits) = Input s # Wait gap # burst s' edits"

fun last_edit :: "string \<Rightarrow> (nat \<times> string) list \<Rightarrow> string" where
  "last_edit s [] = s"
| "last_edit s ((gap, s') # edits) = last_edit s' edits"

definition gaps_below :: "nat \<Rightarrow> (nat \<times> string) list \<Rightarrow> bool" where
  "gaps_below n edits = list_all (\<lambda>x. fst x < n) edits"

text \<open>
  A click on the complete button of a page whose next request identifier is \<open>i\<close>, and the
  three requests of \<open>completeTask\<close> ending one after the other: the save with \<open>r1\<close>, the
  completion with \<open>r2\<close>, the progress refresh with \<open>r3\<close>.
\<close>

definition completion :: "nat \<Rightarrow> result \<Rightarrow> result \<Rightarrow> result \<Rightarrow> event list" where
  "completion i r1 r2 r3 =
     [ClickComplete, Resolve i r1, Resolve (Suc i) r2, Resolve (Suc (Suc i)) r3]"

text \<open>Request identifiers in flight are below the next one.\<close>

definition req_inv :: "client \<Rightarrow> bool" where
  "req_inv c = list_all (\<lambda>x. fst x < next_req c) (pending c)"

text \<open>
  The page of the embedded copy after one completion of task 1 whose three requests have
  succeeded: its advance timer is armed.
\<close>

definition completed_once :: client where
  "completed_once = run_events EmbeddedCopy
     (completion 0 OkPlain OkPlain (OkProgress ''alice'' 1 [(1, True)])) init_client"

section \<open>Properties of the server\<close>

lemmas sql_defs = insert_user_def select_user_by_name_def select_user_by_id_def
  select_progress_def update_last_task_def insert_or_replace_text_def select_text_def
  insert_or_replace_progress_def next_text_id_def

lemmas handler_defs = post_auth_register_def post_auth_login_def get_user_progress_def
  post_user_last_task_def post_task_text_def get_task_text_def post_task_complete_def

lemmas sample_defs = env0_def env1_def bearer0_def bearer1_def empty_db_def jwt_sign_def
  verifyToken_def

subsection \<open>Integers as JavaScript numbers, rows in index order\<close>

lemma bit_length_le: "a < 2 ^ k \<Longrightarrow> bit_length a \<le> k"
proof (induction k arbitrary: a)
  case 0
  then show ?case by (simp add: bit_length.simps)
next
  case (Suc k)
  show ?case
  proof (cases "a = 0")
    case True
    then show ?thesis by (simp add: bit_length.simps)
  next
    case False
    have "a div 2 < 2 ^ k" using Suc.prems by simp
    then have "bit_length (a div 2) \<le> k" by (rule Suc.IH)
    then show ?thesis using False by (subst bit_length.simps) simp
  qed
qed

lemma bit_length_power: "0 < a \<Longrightarrow> 2 ^ (bit_length a - 1) \<le> a"
proof (induction a rule: bit_length.induct)
  case (1 n)
  show ?case
  proof (cases "n div 2 = 0")
    case True
    then have "bit_length n = 1" using "1.prems"
      by (subst bit_length.simps) (simp add: bit_length.simps)
    then show ?thesis using "1.prems" by simp
  next
    case False
    then have ih: "2 ^ (bit_length (n div 2) - 1) \<le> n div 2"
      using "1.IH" "1.prems" by simp
    have pos: "0 < bit_length (n div 2)"
      using False by (subst bit_length.simps) simp
    have "bit_length n = Suc (bit_length (n div 2))"
      using "1.prems" by (subst bit_length.simps) simp
    then have "(2::nat) ^ (bit_length n - 1) = 2 * 2 ^ (bit_length (n div 2) - 1)"
      using pos by (cases "bit_length (n div 2)") simp_all
    also have "\<dots> \<le> 2 * (n div 2)" using ih by simp
    also have "\<dots> \<le> n" by simp
    finally show ?thesis .
  qed
qed

lemma nearest_double_small: "a < 2 ^ 53 \<Longrightarrow> nearest_double a = a"
  using bit_length_le [of a 53] by (simp add: nearest_double_def)

lemma nearest_double_large:
  assumes "\<not> a < 2 ^ 53"
  shows "2 ^ 53 \<le> nearest_double a"
proof (cases "bit_length a \<le> 53")
  case True
  then show ?thesis using assms by (simp add: nearest_double_def)
next
  case False
  define e where "e = bit_length a - 53"
  have e: "bit_length a - 1 = 52 + e" "1 \<le> e" using False by (simp_all add: e_def)
  have "0 < a" using assms by (cases "a = 0") simp_all
  then have "(2::nat) ^ (52 + e) \<le> a" using bit_length_power [of a] e by simp
  then have "(2::nat) ^ (52 + e) div 2 ^ e \<le> a div 2 ^ e" by (rule div_le_mono)
  then have q: "(2::nat) ^ 52 \<le> a div 2 ^ e" by (simp add: power_add)
  have "(2::nat) ^ 53 = 2 ^ 52 * 2 ^ 1" by simp
  also have "\<dots> \<le> 2 ^ 52 * 2 ^ e" using e(2) by (intro mult_le_mono2 power_increasing) simp_all
  also have "\<dots> \<le> (a div 2 ^ e) * 2 ^ e" using q by (rule mult_le_mono1)
  also have "\<dots> \<le> (if 2 ^ (e - 1) < a mod 2 ^ e \<or> (a mod 2 ^ e = 2 ^ (e - 1) \<and> odd (a div 2 ^ e))
        then Suc (a div 2 ^ e) else a div 2 ^ e) * 2 ^ e"
    by simp
  finally have "(2::nat) ^ 53 \<le>
      (if 2 ^ (e - 1) < a mod 2 ^ e \<or> (a mod 2 ^ e = 2 ^ (e - 1) \<and> odd (a div 2 ^ e))
        then Suc (a div 2 ^ e) else a div 2 ^ e) * 2 ^ e" .
  moreover have "nearest_double a =
      (if 2 ^ (e - 1) < a mod 2 ^ e \<or> (a mod 2 ^ e = 2 ^ (e - 1) \<and> odd (a div 2 ^ e))
        then Suc (a div 2 ^ e) else a div 2 ^ e) * 2 ^ e"
    using False unfolding nearest_double_def Let_def e_def by (simp only: if_False)
  ultimately show ?thesis by (simp only:)
qed

lemma to_double_safe: "\<bar>n\<bar> < 9007199254740992 \<Longrightarrow> to_double n = n"
proof -
  assume a: "\<bar>n\<bar> < 9007199254740992"
  have "nat \<bar>n\<bar> < 2 ^ 53" using a by simp
  then have "nearest_double (nat \<bar>n\<bar>) = nat \<bar>n\<bar>" by (rule nearest_double_small)
  then show ?thesis by (cases "n < 0") (simp_all add: to_double_def abs_if)
qed

lemma to_double_unsafe:
  assumes "\<not> \<bar>m\<bar> < 9007199254740992"
  shows "\<not> \<bar>to_double m\<bar> < 9007199254740992"
proof -
  have "\<not> nat \<bar>m\<bar> < 2 ^ 53" using assms by simp
  then have "2 ^ 53 \<le> nearest_double (nat \<bar>m\<bar>)" by (rule nearest_double_large)
  then have "(9007199254740992::int) \<le> int (nearest_double (nat \<bar>m\<bar>))" by simp
  then show ?thesis by (cases "m < 0") (simp_all add: to_double_def abs_if)
qed

lemma to_js_safe: "js_safe T \<Longrightarrow> to_js T = T"
  by (cases T) (simp_all add: to_double_safe)

lemma to_js_eq_safe: "js_safe T \<Longrightarrow> to_js v = T \<Longrightarrow> v = T"
proof (cases v)
  case (SqlInt m)
  assume s: "js_safe T" and eq: "to_js v = T"
  then have "\<bar>to_double m\<bar> < 9007199254740992" using SqlInt by auto
  then have "\<bar>m\<bar> < 9007199254740992" using to_double_unsafe [of m] by blast
  then show ?thesis using eq SqlInt by (simp add: to_double_safe)
next
  case (SqlText x)
  assume "to_js v = T"
  then show ?thesis using SqlText by simp
qed

lemma set_insert_by_task: "set (insert_by_task p ps) = insert p (set ps)"
  by (induction ps) auto

lemma set_by_task: "set (by_task ps) = set ps"
  by (induction ps) (simp_all add: set_insert_by_task)

lemma bit_length_gt: "2 ^ k \<le> a \<Longrightarrow> k < bit_length a"
proof (induction k arbitrary: a)
  case 0
  then show ?case by (subst bit_length.simps) simp
next
  case (Suc k)
  have "2 ^ k \<le> a div 2" using Suc.prems by simp
  then have "k < bit_length (a div 2)" by (rule Suc.IH)
  moreover have "a \<noteq> 0" using Suc.prems by (cases "a = 0") simp_all
  ultimately show ?case by (subst bit_length.simps) simp
qed

lemma rounding: "to_double 9007199254740993 = 9007199254740992"
proof -
  have "bit_length 9007199254740993 \<le> 54"
    by (rule bit_length_le) simp
  moreover have "53 < bit_length 9007199254740993"
    by (rule bit_length_gt) simp
  ultimately have b: "bit_length 9007199254740993 = 54" by simp
  show ?thesis by (simp add: to_double_def nearest_double_def b)
qed

subsection \<open>Drafts\<close>

text \<open>
  Claim C1 (draft round trip, last writer wins). The learner \<open>u-1\<close> registers, saves
  \<open>''a''\<close> for task 1 and then \<open>''b''\<close> for task 1. The claim has the following load
  return \<open>''b''\<close>; the handler returns \<open>''a''\<close>, the content of the first save: the
  second save has added a row and the load reads the first row of the pair.
\<close>

theorem load_after_two_saves_returns_first:
  "fst (serve ''k'' env0 (Protected bearer0 (LoadDraft (SqlInt 1)))
          (run ''k''
             [(env0, Register ''alice''),
              (env0, Protected bearer0 (SaveDraft (SqlInt 1) ''a'')),
              (env0, Protected bearer0 (SaveDraft (SqlInt 1) ''b''))]
             empty_db))
   = Reply 200 (ContentBody ''a'')"
  by (simp add: sample_defs handler_defs sql_defs Let_def)

text \<open>
  Claim C2 (at most one Draft row and one Progress row for a learner and a task). After
  the same two saves the table \<open>texts\<close> holds two rows of learner \<open>u-1\<close> and task 1.
\<close>

theorem two_saves_leave_two_draft_rows:
  "length (draft_rows ''u-1'' (SqlInt 1)
     (run ''k''
        [(env0, Register ''alice''),
         (env0, Protected bearer0 (SaveDraft (SqlInt 1) ''a'')),
         (env0, Protected bearer0 (SaveDraft (SqlInt 1) ''b''))]
        empty_db)) = 2"
  by (simp add: sample_defs handler_defs sql_defs Let_def draft_rows_def)

text \<open>
  What does hold of the two tables. A save for a learner and a task that have no row in
  \<open>texts\<close> is read back by the next load. And \<open>progress\<close>, whose primary key is the
  pair, keeps at most one row of a pair through every sequence of requests.
\<close>

lemma find_append_last:
  "filter P xs = [] \<Longrightarrow> P r \<Longrightarrow> find P (xs @ [r]) = Some r"
  by (induction xs) (auto split: if_splits)

lemma first_save_round_trip:
  assumes "verifyToken secret (clock e) hdr = Inr L" and "\<not> fails1 e"
    and "verifyToken secret (clock e') hdr' = Inr L" and "\<not> fails1 e'"
    and "draft_rows L T d = []"
  shows "fst (get_task_text secret e' hdr' T (snd (post_task_text secret e hdr T x d)))
    = Reply 200 (ContentBody x)"
  using assms
  by (simp add: post_task_text_def get_task_text_def insert_or_replace_text_def
      select_text_def draft_rows_def find_append_last)

lemma length_filter_filter_le:
  "length (filter P (filter Q xs)) \<le> length (filter P xs)"
  by (induction xs) auto

lemma replace_keeps_progress_key:
  assumes "length (progress_rows u t d) \<le> 1"
  shows "length (progress_rows u t (d\<lparr>progress :=
        filter (\<lambda>p. \<not> (p_user_id p = A \<and> p_task_id p = t')) (progress d) @
        [\<lparr>p_user_id = A, p_task_id = t', p_completed = True, p_completion_date = n\<rparr>]\<rparr>)) \<le> 1"
proof (cases "A = u \<and> t' = t")
  case True
  then show ?thesis by (simp add: progress_rows_def)
next
  case False
  have "length (filter (\<lambda>p. p_user_id p = u \<and> p_task_id p = t)
      (filter (\<lambda>p. \<not> (p_user_id p = A \<and> p_task_id p = t')) (progress d)))
     \<le> length (filter (\<lambda>p. p_user_id p = u \<and> p_task_id p = t) (progress d))"
    by (rule length_filter_filter_le)
  then show ?thesis using assms False by (auto simp: progress_rows_def)
qed

lemma serve_keeps_progress_key:
  assumes "length (progress_rows u t d) \<le> 1"
  shows "length (progress_rows u t (snd (serve secret e c d))) \<le> 1"
proof (cases c)
  case (Register n)
  then show ?thesis using assms
    by (auto simp: progress_rows_def post_auth_register_def insert_user_def Let_def)
next
  case (Login n)
  then show ?thesis using assms
    by (auto simp: post_auth_login_def select_user_by_name_def split: option.splits)
next
  case (Protected hdr op)
  show ?thesis
  proof (cases op)
    case GetProgress
    then show ?thesis using Protected assms
      by (auto simp: get_user_progress_def select_user_by_id_def select_progress_def
            split: sum.splits option.splits)
  next
    case (SetLastTask x)
    then show ?thesis using Protected assms
      by (auto simp: post_user_last_task_def update_last_task_def progress_rows_def
            split: sum.splits)
  next
    case (SaveDraft x s)
    then show ?thesis using Protected assms
      by (auto simp: post_task_text_def insert_or_replace_text_def progress_rows_def
            split: sum.splits)
  next
    case (LoadDraft x)
    then show ?thesis using Protected assms
      by (auto simp: get_task_text_def select_text_def split: sum.splits)
  next
    case (CompleteTask x)
    then show ?thesis using Protected replace_keeps_progress_key [OF assms] assms
      by (auto simp: post_task_complete_def insert_or_replace_progress_def split: sum.splits)
  qed
qed

lemma progress_key_unique:
  "length (progress_rows u t d) \<le> 1 \<Longrightarrow> length (progress_rows u t (run secret cs d)) \<le> 1"
proof (induction cs arbitrary: d)
  case Nil then show ?case by simp
next
  case (Cons a cs)
  obtain e c where a: "a = (e, c)" by (cases a)
  show ?case
    using Cons.IH [OF serve_keeps_progress_key [OF Cons.prems, of secret e c]] a by simp
qed

subsection \<open>Isolation of learners\<close>

lemma verifyToken_minted:
  "verifyToken secret now (Some (jwt_sign secret t0 A)) = Inr A \<or>
   verifyToken secret now (Some (jwt_sign secret t0 A))
     = Inl (Reply 401 (ErrorBody ''Invalid token''))"
  by (simp add: verifyToken_def jwt_sign_def)

lemma filter_update_other:
  "A \<noteq> B \<Longrightarrow>
   filter (\<lambda>u. u_id u = B) (map (\<lambda>u. if u_id u = A then u\<lparr>u_last_task := t\<rparr> else u) xs)
     = filter (\<lambda>u. u_id u = B) xs"
  by (induction xs) auto

lemma route_as_user_keeps_others:
  assumes "verifyToken secret (clock e) hdr = Inr A" and "A \<noteq> B"
  shows "rows_of B (snd (protected_route secret e hdr op d)) = rows_of B d"
  using assms
  by (cases op)
     (auto simp: handler_defs sql_defs rows_of_def filter_update_other
           split: option.splits intro!: filter_cong)

lemma route_rejected_keeps_db:
  assumes "verifyToken secret (clock e) hdr = Inl r"
  shows "protected_route secret e hdr op d = (r, d)"
  using assms by (cases op) (auto simp: handler_defs)

lemma find_filter_weaker:
  "(\<And>x. P x \<Longrightarrow> Q x) \<Longrightarrow> find P (filter Q xs) = find P xs"
  by (induction xs) auto

lemma select_user_by_id_rows_of:
  "select_user_by_id f A d =
     (if f then Inl StorageFailure else Inr (find (\<lambda>u. u_id u = A) (fst (rows_of A d))))"
  by (simp add: select_user_by_id_def rows_of_def find_filter_weaker)

lemma select_progress_rows_of:
  "select_progress f A d =
     (if f then Inl StorageFailure
      else Inr (map (\<lambda>p. (to_js (p_task_id p), p_completed p))
                  (by_task (snd (snd (rows_of A d))))))"
  by (simp add: select_progress_def rows_of_def)

lemma select_text_rows_of:
  "select_text f A t d =
     (if f then Inl StorageFailure
      else Inr (find (\<lambda>r. t_user_id r = A \<and> t_task_id r = t) (fst (snd (rows_of A d)))))"
  by (simp add: select_text_def rows_of_def
        find_filter_weaker [of "\<lambda>r. t_user_id r = A \<and> t_task_id r = t" "\<lambda>r. t_user_id r = A"])

lemma route_as_user_reads_own:
  assumes "verifyToken secret (clock e) hdr = Inr A" and "rows_of A d1 = rows_of A d2"
  shows "fst (protected_route secret e hdr op d1) = fst (protected_route secret e hdr op d2)"
proof (cases op)
  case GetProgress
  then show ?thesis using assms
    by (simp add: get_user_progress_def select_user_by_id_rows_of select_progress_rows_of
        split: option.splits)
next
  case (SetLastTask t)
  then show ?thesis using assms by (simp add: post_user_last_task_def update_last_task_def)
next
  case (SaveDraft t s)
  then show ?thesis using assms by (simp add: post_task_text_def insert_or_replace_text_def)
next
  case (LoadDraft t)
  then show ?thesis using assms by (simp add: get_task_text_def select_text_rows_of)
next
  case (CompleteTask t)
  then show ?thesis using assms
    by (simp add: post_task_complete_def insert_or_replace_progress_def)
qed

text \<open>
  Claim C4 (cross-learner isolation). A request behind \<open>verifyToken\<close> that carries a
  credential minted for learner \<open>A\<close> leaves every row of another learner \<open>B\<close> as it was,
  whatever the operation, its task id and its other fields; and its reply is the same on
  two databases that hold the same rows of \<open>A\<close>, so nothing of another learner's rows
  reaches it. The handlers take the learner from the credential alone.
\<close>

theorem cross_learner_isolation:
  assumes "A \<noteq> B"
  shows "rows_of B (snd (protected_route secret e (Some (jwt_sign secret t0 A)) op d))
           = rows_of B d
    \<and> (rows_of A d = rows_of A d' \<longrightarrow>
         fst (protected_route secret e (Some (jwt_sign secret t0 A)) op d)
         = fst (protected_route secret e (Some (jwt_sign secret t0 A)) op d'))"
  using verifyToken_minted [of secret "clock e" t0 A] assms
  by (auto simp: route_as_user_keeps_others route_rejected_keeps_db
           dest: route_as_user_reads_own)

theorem cross_learner_isolation_witness:
  "''u-1'' \<noteq> ''u-2''
   \<and> rows_of ''u-2''
        (snd (protected_route ''k'' env0 (Some (jwt_sign ''k'' 100 ''u-1''))
                (SaveDraft (SqlInt 1) ''again'') two_learners))
      = rows_of ''u-2'' two_learners
   \<and> rows_of ''u-1'' two_learners = rows_of ''u-1'' two_learners'
   \<and> fst (protected_route ''k'' env0 (Some (jwt_sign ''k'' 100 ''u-1''))
            (LoadDraft (SqlInt 1)) two_learners)
      = fst (protected_route ''k'' env0 (Some (jwt_sign ''k'' 100 ''u-1''))
            (LoadDraft (SqlInt 1)) two_learners')"
proof -
  have ne: "''u-1'' \<noteq> ''u-2''" by simp
  have same: "rows_of ''u-1'' two_learners = rows_of ''u-1'' two_learners'"
    by (simp add: two_learners'_def two_learners_def sample_defs handler_defs sql_defs
          Let_def rows_of_def)
  show ?thesis
    using ne same
      cross_learner_isolation [OF ne, of "''k''" env0 100 "SaveDraft (SqlInt 1) ''again''"
        two_learners two_learners]
      cross_learner_isolation [OF ne, of "''k''" env0 100 "LoadDraft (SqlInt 1)"
        two_learners two_learners']
    by blast
qed

subsection \<open>The last-task pointer\<close>

lemma serve_keeps_lastTask_in_range:
  assumes "1 \<le> N" and "lastTask_in_range N d" and "sets_valid_task N c"
  shows "lastTask_in_range N (snd (serve secret e c d))"
proof (cases c)
  case (Register u)
  then show ?thesis using assms
    by (auto simp: post_auth_register_def insert_user_def lastTask_in_range_def Let_def)
next
  case (Login u)
  then show ?thesis using assms
    by (auto simp: post_auth_login_def select_user_by_name_def split: option.splits)
next
  case (Protected hdr op)
  then show ?thesis using assms
    by (cases op)
       (auto simp: handler_defs sql_defs lastTask_in_range_def list_all_iff
             split: sum.splits option.splits)
qed

text \<open>
  Claim C5 (the last-task pointer is always in \<open>[1, N]\<close>), as stated, fails: a learner
  registers and posts \<open>{taskId: 20}\<close> to \<open>/api/user/last-task\<close>; the handler stores 20.
\<close>

theorem lastTask_out_of_range_counterexample:
  "\<not> lastTask_in_range 19
       (run ''k''
          [(env0, Register ''alice''),
           (env0, Protected bearer0 (SetLastTask (Some (SqlInt 20))))]
          empty_db)"
  by (simp add: sample_defs handler_defs sql_defs Let_def lastTask_in_range_def)

text \<open>
  Claim C5, amended. A learner is created with the pointer at 1, and a last-task update
  stores the task id it carries, unchecked. So for a course of \<open>N \<ge> 1\<close> tasks: when the
  pointers are in \<open>[1, N]\<close> and every last-task update of a sequence of requests carries
  a task id in \<open>[1, N]\<close>, the pointers are in \<open>[1, N]\<close> after the sequence.
\<close>

theorem lastTask_in_range_while_updates_in_range:
  assumes "1 \<le> N" and "lastTask_in_range N d"
    and "\<forall>c \<in> set cs. sets_valid_task N (snd c)"
  shows "lastTask_in_range N (run secret cs d)"
  using assms
proof (induction cs arbitrary: d)
  case Nil
  then show ?case by simp
next
  case (Cons a cs)
  obtain e c where a: "a = (e, c)" by (cases a)
  have "lastTask_in_range N (snd (serve secret e c d))"
    using Cons.prems a by (intro serve_keeps_lastTask_in_range) auto
  then show ?case using Cons a by simp
qed

theorem lastTask_in_range_while_updates_in_range_witness:
  "(1::int) \<le> 19 \<and> lastTask_in_range 19 empty_db
   \<and> list_all (\<lambda>c. sets_valid_task 19 (snd c))
        [(env0, Register ''alice''),
         (env0, Protected bearer0 (SetLastTask (Some (SqlInt 5))))]
   \<and> lastTask_in_range 19
        (run ''k'' [(env0, Register ''alice''),
                    (env0, Protected bearer0 (SetLastTask (Some (SqlInt 5))))] empty_db)
   \<and> map u_last_task
        (users (run ''k'' [(env0, Register ''alice''),
                    (env0, Protected bearer0 (SetLastTask (Some (SqlInt 5))))] empty_db))
      = [Some (SqlInt 5)]"
proof -
  have h1: "(1::int) \<le> 19" by simp
  have h2: "lastTask_in_range 19 empty_db"
    by (simp add: lastTask_in_range_def empty_db_def)
  have h3: "\<forall>c \<in> set [(env0, Register ''alice''),
                  (env0, Protected bearer0 (SetLastTask (Some (SqlInt 5))))].
         sets_valid_task 19 (snd c)"
    by simp
  have v: "map u_last_task
        (users (run ''k'' [(env0, Register ''alice''),
                    (env0, Protected bearer0 (SetLastTask (Some (SqlInt 5))))] empty_db))
      = [Some (SqlInt 5)]"
    by (simp add: sample_defs handler_defs sql_defs Let_def)
  have h3': "list_all (\<lambda>c. sets_valid_task 19 (snd c))
        [(env0, Register ''alice''),
         (env0, Protected bearer0 (SetLastTask (Some (SqlInt 5))))]"
    by simp
  show ?thesis
    using h1 h2 h3' v lastTask_in_range_while_updates_in_range [OF h1 h2 h3, of "''k''"]
    by blast
qed

subsection \<open>Completion\<close>

lemma update_keeps_ids:
  "list_ex (\<lambda>u. u_id u = L) xs \<Longrightarrow>
   list_ex (\<lambda>u. u_id u = L)
     (map (\<lambda>u. if u_id u = A then u\<lparr>u_last_task := t\<rparr> else u) xs)"
  by (induction xs) auto

lemma serve_keeps_registered:
  assumes r: "registered L d"
  shows "registered L (snd (serve secret e c d))"
proof (cases c)
  case (Register u)
  then show ?thesis using r
    by (auto simp: registered_def post_auth_register_def insert_user_def Let_def list_ex_iff)
next
  case (Login u)
  then show ?thesis using r
    by (auto simp: registered_def post_auth_login_def select_user_by_name_def
          split: option.splits)
next
  case (Protected hdr op)
  have upd: "\<And>t A. list_ex (\<lambda>u. u_id u = L)
      (map (\<lambda>u. if u_id u = A then u\<lparr>u_last_task := t\<rparr> else u) (users d))"
    using r by (simp add: registered_def update_keeps_ids)
  show ?thesis using Protected r
    by (cases op)
       (auto simp: registered_def handler_defs sql_defs upd split: sum.splits option.splits)
qed

lemma run_keeps_registered:
  "registered L d \<Longrightarrow> registered L (run secret cs d)"
proof (induction cs arbitrary: d)
  case Nil then show ?case by simp
next
  case (Cons a cs)
  obtain e c where a: "a = (e, c)" by (cases a)
  show ?case using Cons a by (simp add: serve_keeps_registered)
qed

lemma complete_marks:
  assumes "verifyToken secret (clock e) hdr = Inr L" and "\<not> fails1 e"
  shows "marked_completed L T (snd (post_task_complete secret e hdr T d))"
  using assms
  by (simp add: post_task_complete_def insert_or_replace_progress_def marked_completed_def
      progress_rows_def)

lemma replace_keeps_marked:
  assumes "marked_completed L T d"
  shows "marked_completed L T (d\<lparr>progress :=
        filter (\<lambda>p. \<not> (p_user_id p = A \<and> p_task_id p = t)) (progress d) @
        [\<lparr>p_user_id = A, p_task_id = t, p_completed = True, p_completion_date = n\<rparr>]\<rparr>)"
proof (cases "A = L \<and> t = T")
  case True
  then show ?thesis by (simp add: marked_completed_def progress_rows_def)
next
  case False
  then have "filter (\<lambda>p. p_user_id p = L \<and> p_task_id p = T)
      (filter (\<lambda>p. \<not> (p_user_id p = A \<and> p_task_id p = t)) (progress d))
    = filter (\<lambda>p. p_user_id p = L \<and> p_task_id p = T) (progress d)"
    by (auto intro!: filter_cong)
  then show ?thesis using assms False
    by (auto simp: marked_completed_def progress_rows_def)
qed

lemma serve_keeps_marked:
  assumes "marked_completed L T d"
  shows "marked_completed L T (snd (serve secret e c d))"
proof (cases c)
  case (Register u)
  then show ?thesis using assms
    by (auto simp: marked_completed_def progress_rows_def post_auth_register_def
          insert_user_def Let_def)
next
  case (Login u)
  then show ?thesis using assms
    by (auto simp: post_auth_login_def select_user_by_name_def split: option.splits)
next
  case (Protected hdr op)
  show ?thesis
  proof (cases op)
    case GetProgress
    then show ?thesis using Protected assms
      by (auto simp: get_user_progress_def select_user_by_id_def select_progress_def
            split: sum.splits option.splits)
  next
    case (SetLastTask t)
    then show ?thesis using Protected assms
      by (auto simp: post_user_last_task_def update_last_task_def marked_completed_def
            progress_rows_def split: sum.splits)
  next
    case (SaveDraft t s)
    then show ?thesis using Protected assms
      by (auto simp: post_task_text_def insert_or_replace_text_def marked_completed_def
            progress_rows_def split: sum.splits)
  next
    case (LoadDraft t)
    then show ?thesis using Protected assms
      by (auto simp: get_task_text_def select_text_def split: sum.splits)
  next
    case (CompleteTask t)
    then show ?thesis using Protected replace_keeps_marked [OF assms]
      by (auto simp: post_task_complete_def insert_or_replace_progress_def assms
            split: sum.splits)
  qed
qed

lemma run_keeps_marked:
  "marked_completed L T d \<Longrightarrow> marked_completed L T (run secret cs d)"
proof (induction cs arbitrary: d)
  case Nil then show ?case by simp
next
  case (Cons a cs)
  obtain e c where a: "a = (e, c)" by (cases a)
  show ?case using Cons a by (simp add: serve_keeps_marked)
qed

lemma marked_replies:
  assumes "marked_completed L T d" and "registered L d"
    and "verifyToken secret (clock e) hdr = Inr L" and "\<not> fails1 e" and "\<not> fails2 e"
  shows "(to_js T, True) \<in> set (reply_entries (fst (get_user_progress secret e hdr d)))"
    and "js_safe T \<Longrightarrow> shows_completed T (fst (get_user_progress secret e hdr d))"
proof -
  let ?rows = "by_task (filter (\<lambda>p. p_user_id p = L) (progress d))"
  let ?prog = "map (\<lambda>p. (to_js (p_task_id p), p_completed p)) ?rows"
  have "find (\<lambda>u. u_id u = L) (users d) \<noteq> None"
    using assms(2) by (auto simp: registered_def list_ex_iff find_None_iff)
  then obtain u where u: "find (\<lambda>u. u_id u = L) (users d) = Some u"
    by auto
  have reply: "fst (get_user_progress secret e hdr d)
      = Reply 200 (ProgressBody (u_username u) (last_task_or_one u) ?prog)"
    using assms(3,4,5) u
    by (simp add: get_user_progress_def select_user_by_id_def select_progress_def)
  have rows: "set ?rows = {p \<in> set (progress d). p_user_id p = L}"
    by (simp add: set_by_task)
  obtain p where p: "p \<in> set (progress d)" "p_user_id p = L" "p_task_id p = T"
    using assms(1) by (auto simp: marked_completed_def progress_rows_def filter_empty_conv)
  have all: "\<And>q. q \<in> set (progress d) \<Longrightarrow> p_user_id q = L \<Longrightarrow> p_task_id q = T
      \<Longrightarrow> p_completed q"
    using assms(1) by (auto simp: marked_completed_def progress_rows_def list_all_iff)
  have "p \<in> set ?rows" using p rows by simp
  then have "(to_js (p_task_id p), p_completed p) \<in> set ?prog"
    by (simp only: set_map) (rule imageI)
  then have yes: "(to_js T, True) \<in> set ?prog"
    using p all [OF p] by simp
  show "(to_js T, True) \<in> set (reply_entries (fst (get_user_progress secret e hdr d)))"
    using yes by (simp only: reply reply_entries.simps)
  show "shows_completed T (fst (get_user_progress secret e hdr d))" if safe: "js_safe T"
  proof -
    have no: "(T, False) \<notin> set ?prog"
    proof
      assume "(T, False) \<in> set ?prog"
      then obtain q where q: "q \<in> set ?rows" "to_js (p_task_id q) = T" "\<not> p_completed q"
        by auto
      have "p_task_id q = T" using safe q(2) by (rule to_js_eq_safe)
      then show False using q(1,3) rows all by auto
    qed
    have "(T, True) \<in> set ?prog" using yes to_js_safe [OF safe] by simp
    then show ?thesis using no by (simp only: reply shows_completed.simps) simp
  qed
qed

lemma set_progress_entries:
  "set (progress_entries L d)
     = (\<lambda>p. (to_js (p_task_id p), p_completed p)) ` {q \<in> set (progress d). p_user_id q = L}"
  by (auto simp: progress_entries_def select_progress_def set_by_task)

lemma second_complete_same_entries:
  assumes "marked_completed L T d"
  shows "set (progress_entries L (snd (post_task_complete secret e hdr T d)))
    = set (progress_entries L d)"
proof (cases "verifyToken secret (clock e) hdr")
  case (Inl r)
  then show ?thesis by (simp add: post_task_complete_def)
next
  case (Inr A)
  show ?thesis
  proof (cases "fails1 e")
    case True
    then show ?thesis using Inr
      by (simp add: post_task_complete_def insert_or_replace_progress_def)
  next
    case False
    obtain p where p: "p \<in> set (progress d)" "p_user_id p = L" "p_task_id p = T"
      using assms by (auto simp: marked_completed_def progress_rows_def filter_empty_conv)
    have all: "\<And>q. q \<in> set (progress d) \<Longrightarrow> p_user_id q = L \<Longrightarrow> p_task_id q = T
        \<Longrightarrow> p_completed q"
      using assms by (auto simp: marked_completed_def progress_rows_def list_all_iff)
    let ?d' = "snd (post_task_complete secret e hdr T d)"
    let ?new = "\<lparr>p_user_id = A, p_task_id = T, p_completed = True,
        p_completion_date = Some (clock e)\<rparr>"
    let ?f = "\<lambda>p. (to_js (p_task_id p), p_completed p)"
    have mem: "\<And>q. q \<in> set (progress ?d') \<longleftrightarrow>
        (q \<in> set (progress d) \<and> \<not> (p_user_id q = A \<and> p_task_id q = T)) \<or> q = ?new"
      using Inr False
      by (auto simp: post_task_complete_def insert_or_replace_progress_def)
    have "?f ` {q \<in> set (progress ?d'). p_user_id q = L}
        = ?f ` {q \<in> set (progress d). p_user_id q = L}"
    proof (intro equalityI subsetI)
      fix x
      assume "x \<in> ?f ` {q \<in> set (progress ?d'). p_user_id q = L}"
      then obtain q where q: "x = ?f q" "q \<in> set (progress ?d')" "p_user_id q = L"
        by auto
      show "x \<in> ?f ` {q \<in> set (progress d). p_user_id q = L}"
      proof (cases "q = ?new")
        case True
        then have "x = ?f p" using q(1) p all [OF p] by simp
        then show ?thesis using p by blast
      next
        case False
        then have "q \<in> set (progress d)" using q(2) mem by blast
        then show ?thesis using q by blast
      qed
    next
      fix x
      assume "x \<in> ?f ` {q \<in> set (progress d). p_user_id q = L}"
      then obtain q where q: "x = ?f q" "q \<in> set (progress d)" "p_user_id q = L"
        by auto
      show "x \<in> ?f ` {q \<in> set (progress ?d'). p_user_id q = L}"
      proof (cases "p_user_id q = A \<and> p_task_id q = T")
        case True
        then have "x = ?f ?new" using q all [OF q(2,3)] by simp
        moreover have "p_user_id ?new = L" using True q(3) by simp
        moreover have "?new \<in> set (progress ?d')" using mem by blast
        ultimately show ?thesis by blast
      next
        case False
        then have "q \<in> set (progress ?d')" using q(2) mem by blast
        then show ?thesis using q by blast
      qed
    qed
    then show ?thesis by (simp only: set_progress_entries)
  qed
qed

text \<open>
  Claim C6 (completion is set, idempotent and never reverted). Learner \<open>L\<close>, who has a
  row in \<open>users\<close>, completes task \<open>T\<close> with a valid credential and the statement does not
  fail. Then after any sequence \<open>cs\<close> of further requests of any kind, by anyone (none,
  a second completion of \<open>T\<close>, or any others), a progress request of \<open>L\<close> that succeeds
  has an entry of \<open>T\<close>, with its id as the JavaScript number or string, and
  \<open>completed: true\<close>. When the id is a text or an integer of a magnitude below \<open>2^53\<close>,
  as every task of a course is, that entry carries \<open>T\<close> itself and the reply has no
  entry of \<open>T\<close> with \<open>completed: false\<close>. And a second completion of \<open>T\<close>, whatever its
  credential, clock and outcome, leaves the set of the entries of \<open>L\<close> as the first one
  left it.
\<close>

theorem completed_is_permanent:
  assumes "verifyToken secret (clock e1) h1 = Inr L" and "\<not> fails1 e1"
    and "verifyToken secret (clock e3) h3 = Inr L" and "\<not> fails1 e3" and "\<not> fails2 e3"
    and "registered L d"
  shows "(to_js T, True) \<in> set (reply_entries (fst (get_user_progress secret e3 h3
            (run secret cs (snd (post_task_complete secret e1 h1 T d))))))
    \<and> (js_safe T \<longrightarrow>
         shows_completed T (fst (get_user_progress secret e3 h3
            (run secret cs (snd (post_task_complete secret e1 h1 T d))))))
    \<and> set (progress_entries L (snd (post_task_complete secret e2 h2 T
            (snd (post_task_complete secret e1 h1 T d)))))
       = set (progress_entries L (snd (post_task_complete secret e1 h1 T d)))"
proof -
  let ?d1 = "snd (post_task_complete secret e1 h1 T d)"
  have m: "marked_completed L T ?d1" using assms(1,2) by (rule complete_marks)
  have "registered L ?d1"
    using serve_keeps_registered [OF assms(6), of secret e1 "Protected h1 (CompleteTask T)"]
    by simp
  then have r: "registered L (run secret cs ?d1)" by (rule run_keeps_registered)
  have m': "marked_completed L T (run secret cs ?d1)" using m by (rule run_keeps_marked)
  note entry = marked_replies [OF m' r assms(3,4,5)]
  show ?thesis using entry second_complete_same_entries [OF m] by simp
qed

theorem completed_is_permanent_witness:
  "verifyToken ''k'' (clock env0) bearer0 = Inr ''u-1'' \<and> \<not> fails1 env0 \<and> \<not> fails2 env0
   \<and> registered ''u-1'' alice_only \<and> js_safe (SqlInt 3)
   \<and> (SqlInt 3, True) \<in> set (reply_entries (fst (get_user_progress ''k'' env0 bearer0
        (run ''k'' [(env0, Protected bearer0 (CompleteTask (SqlInt 3))),
                    (env0, Protected bearer0 (SaveDraft (SqlInt 3) ''text''))]
           (snd (post_task_complete ''k'' env0 bearer0 (SqlInt 3) alice_only))))))
   \<and> shows_completed (SqlInt 3) (fst (get_user_progress ''k'' env0 bearer0
        (run ''k'' [(env0, Protected bearer0 (CompleteTask (SqlInt 3))),
                    (env0, Protected bearer0 (SaveDraft (SqlInt 3) ''text''))]
           (snd (post_task_complete ''k'' env0 bearer0 (SqlInt 3) alice_only)))))
   \<and> set (progress_entries ''u-1'' (snd (post_task_complete ''k'' env0 bearer0 (SqlInt 3)
            (snd (post_task_complete ''k'' env0 bearer0 (SqlInt 3) alice_only)))))
       = set (progress_entries ''u-1''
            (snd (post_task_complete ''k'' env0 bearer0 (SqlInt 3) alice_only)))"
proof -
  have v: "verifyToken ''k'' (clock env0) bearer0 = Inr ''u-1''"
    by (simp add: sample_defs)
  have f1: "\<not> fails1 env0" and f2: "\<not> fails2 env0"
    by (simp_all add: env0_def)
  have r: "registered ''u-1'' alice_only"
    by (simp add: alice_only_def registered_def sample_defs handler_defs sql_defs Let_def)
  have s: "js_safe (SqlInt 3)" by simp
  have j: "to_js (SqlInt 3) = SqlInt 3" using s by (rule to_js_safe)
  show ?thesis
    using v f1 f2 r s
      completed_is_permanent [OF v f1 v f1 f2 r, of "SqlInt 3"
        "[(env0, Protected bearer0 (CompleteTask (SqlInt 3))),
          (env0, Protected bearer0 (SaveDraft (SqlInt 3) ''text''))]" env0 bearer0]
    by (simp only: j) blast
qed

subsection \<open>Registration\<close>

text \<open>
  Claim C7 (registration). A username of fewer than 3 characters gets status 400 and the
  database is as before. A username of 3 or more characters that a learner already has
  gets status 409 and the database is as before, when the statement does not fail. A
  username of 3 or more characters that no learner has, with a generated id that no
  learner has, adds a learner with the last-task pointer at 1 and gets the username, the
  new id, \<open>lastTask: 1\<close> and a token that \<open>verifyToken\<close> resolves to the new id.
\<close>

theorem register_outcomes:
  "(length u < 3 \<longrightarrow>
      post_auth_register secret e u d
        = (Reply 400 (ErrorBody ''Username must be at least 3 characters''), d))
   \<and> (3 \<le> length u \<and> \<not> fails1 e \<and> list_ex (\<lambda>r. u_username r = u) (users d) \<longrightarrow>
      post_auth_register secret e u d
        = (Reply 409 (ErrorBody ''Username already exists''), d))
   \<and> (3 \<le> length u \<and> \<not> fails1 e \<and> \<not> list_ex (\<lambda>r. u_username r = u) (users d)
      \<and> \<not> list_ex (\<lambda>r. u_id r = uuidv4 e) (users d) \<longrightarrow>
      post_auth_register secret e u d
        = (Reply 200 (AuthBody (jwt_sign secret (clock e) (uuidv4 e)) u (uuidv4 e)
             (Some (SqlInt 1))),
           d\<lparr>users := users d @
             [\<lparr>u_id = uuidv4 e, u_username = u, u_created_at = clock e,
               u_last_task = Some (SqlInt 1)\<rparr>]\<rparr>)
      \<and> verifyToken secret (clock e) (Some (jwt_sign secret (clock e) (uuidv4 e)))
          = Inr (uuidv4 e))"
  by (auto simp: post_auth_register_def insert_user_def Let_def list_ex_iff verifyToken_def
        jwt_sign_def)

theorem register_outcomes_witness:
  "length ''al'' < 3
   \<and> post_auth_register ''k'' env0 ''al'' empty_db
       = (Reply 400 (ErrorBody ''Username must be at least 3 characters''), empty_db)
   \<and> 3 \<le> length ''alice'' \<and> \<not> fails1 env1
   \<and> list_ex (\<lambda>r. u_username r = ''alice'') (users alice_only)
   \<and> post_auth_register ''k'' env1 ''alice'' alice_only
       = (Reply 409 (ErrorBody ''Username already exists''), alice_only)
   \<and> \<not> fails1 env0
   \<and> \<not> list_ex (\<lambda>r. u_username r = ''alice'') (users empty_db)
   \<and> \<not> list_ex (\<lambda>r. u_id r = uuidv4 env0) (users empty_db)
   \<and> post_auth_register ''k'' env0 ''alice'' empty_db
       = (Reply 200 (AuthBody (jwt_sign ''k'' (clock env0) (uuidv4 env0)) ''alice''
            (uuidv4 env0) (Some (SqlInt 1))),
          empty_db\<lparr>users := users empty_db @
             [\<lparr>u_id = uuidv4 env0, u_username = ''alice'', u_created_at = clock env0,
               u_last_task = Some (SqlInt 1)\<rparr>]\<rparr>)
   \<and> verifyToken ''k'' (clock env0) (Some (jwt_sign ''k'' (clock env0) (uuidv4 env0)))
       = Inr (uuidv4 env0)"
proof -
  have a: "length ''al'' < 3" by simp
  have b: "3 \<le> length ''alice'' \<and> \<not> fails1 env1
      \<and> list_ex (\<lambda>r. u_username r = ''alice'') (users alice_only)"
    by (simp add: alice_only_def sample_defs handler_defs sql_defs Let_def)
  have c: "3 \<le> length ''alice'' \<and> \<not> fails1 env0
      \<and> \<not> list_ex (\<lambda>r. u_username r = ''alice'') (users empty_db)
      \<and> \<not> list_ex (\<lambda>r. u_id r = uuidv4 env0) (users empty_db)"
    by (simp add: sample_defs)
  show ?thesis
    using a b c
      register_outcomes [of "''al''" "''k''" env0 empty_db]
      register_outcomes [of "''alice''" "''k''" env1 alice_only]
      register_outcomes [of "''alice''" "''k''" env0 empty_db]
    by blast
qed

subsection \<open>No validation of task ids and learners\<close>

lemma map_no_match:
  "\<not> list_ex (\<lambda>u. u_id u = L) xs \<Longrightarrow>
   map (\<lambda>u. if u_id u = L then u\<lparr>u_last_task := t\<rparr> else u) xs = xs"
  by (induction xs) auto

text \<open>
  Claim C10 (no existence or range validation). With a valid credential of \<open>L\<close> and a
  statement that does not fail, for every task id, text or integer of any size: the save
  replies success and \<open>texts\<close> then has a row of \<open>L\<close>, the task id and the content; the
  completion replies success and \<open>progress\<close> then has a completed row of \<open>L\<close> and the
  task id; and the last-task update replies success when \<open>L\<close> has no row in \<open>users\<close>, and
  then leaves the database as it was.
\<close>

theorem store_operations_do_not_validate:
  assumes "verifyToken secret (clock e) hdr = Inr L" and "\<not> fails1 e"
  shows "fst (post_task_text secret e hdr taskId content d) = Reply 200 SuccessBody
     \<and> \<lparr>t_id = next_text_id d, t_user_id = L, t_task_id = taskId, t_content = content,
          t_updated_at = clock e\<rparr>
         \<in> set (texts (snd (post_task_text secret e hdr taskId content d)))
     \<and> fst (post_task_complete secret e hdr taskId d) = Reply 200 SuccessBody
     \<and> \<lparr>p_user_id = L, p_task_id = taskId, p_completed = True,
          p_completion_date = Some (clock e)\<rparr>
         \<in> set (progress (snd (post_task_complete secret e hdr taskId d)))
     \<and> (\<not> registered L d \<longrightarrow>
          post_user_last_task secret e hdr lastTask d = (Reply 200 SuccessBody, d))"
  using assms
  by (simp add: post_task_text_def post_task_complete_def post_user_last_task_def
      insert_or_replace_text_def insert_or_replace_progress_def update_last_task_def
      map_no_match registered_def)

theorem store_operations_do_not_validate_witness:
  "verifyToken ''k'' (clock env0) ghost = Inr ''nobody'' \<and> \<not> fails1 env0
   \<and> fst (post_task_text ''k'' env0 ghost (SqlText ''abc'') ''x'' alice_only)
       = Reply 200 SuccessBody
   \<and> \<lparr>t_id = next_text_id alice_only, t_user_id = ''nobody'', t_task_id = SqlText ''abc'',
        t_content = ''x'', t_updated_at = clock env0\<rparr>
       \<in> set (texts (snd (post_task_text ''k'' env0 ghost (SqlText ''abc'') ''x'' alice_only)))
   \<and> fst (post_task_complete ''k'' env0 ghost (SqlText ''abc'') alice_only)
       = Reply 200 SuccessBody
   \<and> \<lparr>p_user_id = ''nobody'', p_task_id = SqlText ''abc'', p_completed = True,
        p_completion_date = Some (clock env0)\<rparr>
       \<in> set (progress (snd (post_task_complete ''k'' env0 ghost (SqlText ''abc'') alice_only)))
   \<and> \<not> registered ''nobody'' alice_only
   \<and> post_user_last_task ''k'' env0 ghost (Some (SqlInt (- 7))) alice_only
       = (Reply 200 SuccessBody, alice_only)"
proof -
  have v: "verifyToken ''k'' (clock env0) ghost = Inr ''nobody''"
    by (simp add: sample_defs ghost_def)
  have f: "\<not> fails1 env0" by (simp add: env0_def)
  have n: "\<not> registered ''nobody'' alice_only"
    by (simp add: alice_only_def registered_def sample_defs handler_defs sql_defs Let_def)
  show ?thesis
    using v f n
      store_operations_do_not_validate [OF v f, of "SqlText ''abc''" "''x''" alice_only
        "Some (SqlInt (- 7))"]
    by blast
qed

section \<open>Properties of the client\<close>

subsection \<open>What each function leaves alone\<close>

lemma fetch_fields [simp]:
  "timers (fetch q k c) = timers c" "saveTimer (fetch q k c) = saveTimer c"
  "next_timer (fetch q k c) = next_timer c" "editor (fetch q k c) = editor c"
  "time (fetch q k c) = time c" "currentTask (fetch q k c) = currentTask c"
  "sent (fetch q k c) = sent c @ [q]"
  "pending (fetch q k c) = pending c @ [(next_req c, q, k)]"
  "next_req (fetch q k c) = Suc (next_req c)"
  by (simp_all add: fetch_def)

lemma loadTask_fields [simp]:
  "timers (loadTask t c) = timers c" "saveTimer (loadTask t c) = saveTimer c"
  "next_timer (loadTask t c) = next_timer c" "editor (loadTask t c) = editor c"
  "time (loadTask t c) = time c" "currentTask (loadTask t c) = t"
  "sent (loadTask t c) = sent c @ [GetText t]"
  by (simp_all add: loadTask_def)

lemma saveCurrentText_fields [simp]:
  "timers (saveCurrentText k c) = timers c" "saveTimer (saveCurrentText k c) = saveTimer c"
  "next_timer (saveCurrentText k c) = next_timer c" "editor (saveCurrentText k c) = editor c"
  "time (saveCurrentText k c) = time c" "currentTask (saveCurrentText k c) = currentTask c"
  "sent (saveCurrentText k c) = sent c @ [PostText (currentTask c) (editor c)]"
  by (simp_all add: saveCurrentText_def)

lemma fire_fields [simp]:
  "timers (fire cb c) = timers c" "saveTimer (fire cb c) = saveTimer c"
  "next_timer (fire cb c) = next_timer c" "editor (fire cb c) = editor c"
  "time (fire cb c) = time c"
  by (cases cb; simp)+

lemma fire_all_fields [simp]:
  "timers (fire_all cbs c) = timers c" "saveTimer (fire_all cbs c) = saveTimer c"
  "next_timer (fire_all cbs c) = next_timer c" "editor (fire_all cbs c) = editor c"
  "time (fire_all cbs c) = time c"
  by (induction cbs arbitrary: c; simp)+

lemma saves_fire: "saves (fire cb c) = saves c @ (if cb = SaveCallback then [editor c] else [])"
  by (cases cb) (simp_all add: saves_def map_filter_def)

lemma saves_fire_all:
  "saves (fire_all cbs c) = saves c @ replicate (length (filter (\<lambda>cb. cb = SaveCallback) cbs)) (editor c)"
  by (induction cbs arbitrary: c) (simp_all add: saves_fire replicate_app_Cons_same)

lemma wait_fields [simp]:
  "timers (wait dt c) = filter (\<lambda>x. \<not> fst (snd x) \<le> time c + dt) (timers c)"
  "saveTimer (wait dt c) = saveTimer c"
  "next_timer (wait dt c) = next_timer c" "editor (wait dt c) = editor c"
  "time (wait dt c) = time c + dt"
  by (simp_all add: wait_def Let_def)

lemma length_filter_insort_key:
  "length (filter P (insort_key f x xs)) = length (filter P (x # xs))"
  by (induction xs) auto

lemma length_filter_sort_key:
  "length (filter P (sort_key f xs)) = length (filter P xs)"
  by (induction xs) (simp_all add: length_filter_insort_key)

lemma saves_wait:
  "saves (wait dt c) = saves c @
     replicate (length (filter (\<lambda>x. fst (snd x) \<le> time c + dt \<and> snd (snd x) = SaveCallback) (timers c))) (editor c)"
proof -
  let ?due = "filter (\<lambda>x. fst (snd x) \<le> time c + dt) (timers c)"
  let ?c' = "c\<lparr>time := time c + dt, timers := filter (\<lambda>x. \<not> fst (snd x) \<le> time c + dt) (timers c)\<rparr>"
  let ?cbs = "map (\<lambda>x. snd (snd x)) (sort_key (\<lambda>x. fst (snd x)) ?due)"
  have len: "length (filter (\<lambda>cb. cb = SaveCallback) ?cbs)
     = length (filter (\<lambda>x. fst (snd x) \<le> time c + dt \<and> snd (snd x) = SaveCallback) (timers c))"
    by (simp add: filter_map comp_def length_filter_sort_key)
  have s: "saves ?c' = saves c" by (simp add: saves_def)
  have "saves (wait dt c) = saves ?c' @ replicate (length (filter (\<lambda>cb. cb = SaveCallback) ?cbs)) (editor ?c')"
    unfolding wait_def Let_def by (rule saves_fire_all)
  then show ?thesis using len s by simp
qed

subsection \<open>The debounce timer\<close>

lemma saves_wait_armed:
  "saves (wait dt c) = saves c @
     replicate (length (filter (\<lambda>x. fst (snd x) \<le> time c + dt) (armed SaveCallback c))) (editor c)"
  by (simp add: saves_wait armed_def conj_commute)

lemma armed_wait:
  "armed cb (wait dt c) = filter (\<lambda>x. \<not> fst (snd x) \<le> time c + dt) (armed cb c)"
  by (auto simp: armed_def intro!: filter_cong)

lemma scheduleAutoSave_fields [simp]:
  "saveTimer (scheduleAutoSave c) = Some (next_timer c)"
  "next_timer (scheduleAutoSave c) = Suc (next_timer c)"
  "editor (scheduleAutoSave c) = editor c"
  "time (scheduleAutoSave c) = time c"
  "sent (scheduleAutoSave c) = sent c"
  "pending (scheduleAutoSave c) = pending c"
  "next_req (scheduleAutoSave c) = next_req c"
  "currentTask (scheduleAutoSave c) = currentTask c"
  by (simp_all add: scheduleAutoSave_def setSaveStatus_def setTimeout_def clearTimeout_def
        Let_def split: option.splits)

lemma scheduleAutoSave_timers:
  "timers (scheduleAutoSave c) =
     (case saveTimer c of
        Some h \<Rightarrow> if h \<noteq> 0 then filter (\<lambda>t. fst t \<noteq> h) (timers c) else timers c
      | None \<Rightarrow> timers c) @ [(next_timer c, time c + 2000, SaveCallback)]"
  by (simp add: scheduleAutoSave_def setSaveStatus_def setTimeout_def clearTimeout_def
        Let_def split: option.splits)

lemma input_fields:
  "saveTimer (step cp (Input s) c) = Some (next_timer c)"
  "next_timer (step cp (Input s) c) = Suc (next_timer c)"
  "editor (step cp (Input s) c) = s"
  "time (step cp (Input s) c) = time c"
  "sent (step cp (Input s) c) = sent c"
  "pending (step cp (Input s) c) = pending c"
  "next_req (step cp (Input s) c) = next_req c"
  "currentTask (step cp (Input s) c) = currentTask c"
  "timers (step cp (Input s) c) =
     (case saveTimer c of
        Some h \<Rightarrow> if h \<noteq> 0 then filter (\<lambda>t. fst t \<noteq> h) (timers c) else timers c
      | None \<Rightarrow> timers c) @ [(next_timer c, time c + 2000, SaveCallback)]"
  by (simp_all add: scheduleAutoSave_timers split: option.splits)

lemma sched_inv_named:
  assumes "sched_inv c"
  shows "\<forall>x\<in>set (timers c). snd (snd x) = SaveCallback \<longrightarrow> saveTimer c = Some (fst x) \<and> fst x \<noteq> 0"
    and "0 < next_timer c"
  using assms by (auto simp: sched_inv_def list_all_iff)

lemma input_rearms:
  assumes "\<forall>x\<in>set (timers c). snd (snd x) = SaveCallback \<longrightarrow> saveTimer c = Some (fst x) \<and> fst x \<noteq> 0"
  shows "armed SaveCallback (step cp (Input s) c) = [(next_timer c, time c + 2000, SaveCallback)]"
proof -
  have "filter (\<lambda>x. snd (snd x) = SaveCallback)
     (case saveTimer c of
        Some h \<Rightarrow> if h \<noteq> 0 then filter (\<lambda>t. fst t \<noteq> h) (timers c) else timers c
      | None \<Rightarrow> timers c) = []"
    using assms by (auto simp: filter_empty_conv split: option.splits)
  then show ?thesis
    by (simp add: armed_def input_fields del: step.simps)
qed

lemma saves_input: "saves (step cp (Input s) c) = saves c"
  by (simp add: saves_def input_fields del: step.simps)

lemma input_keeps_named:
  assumes "\<forall>x\<in>set (timers c). snd (snd x) = SaveCallback \<longrightarrow> saveTimer c = Some (fst x) \<and> fst x \<noteq> 0"
    and "0 < next_timer c"
  shows "\<forall>x\<in>set (timers (step cp (Input s) c)). snd (snd x) = SaveCallback \<longrightarrow>
           saveTimer (step cp (Input s) c) = Some (fst x) \<and> fst x \<noteq> 0"
proof
  fix x assume x: "x \<in> set (timers (step cp (Input s) c))"
  show "snd (snd x) = SaveCallback \<longrightarrow> saveTimer (step cp (Input s) c) = Some (fst x) \<and> fst x \<noteq> 0"
  proof
    assume "snd (snd x) = SaveCallback"
    then have "x \<in> set (armed SaveCallback (step cp (Input s) c))"
      using x by (simp add: armed_def)
    then have "x = (next_timer c, time c + 2000, SaveCallback)"
      by (simp add: input_rearms [OF assms(1)] del: step.simps)
    then show "saveTimer (step cp (Input s) c) = Some (fst x) \<and> fst x \<noteq> 0"
      using assms(2) by (simp add: input_fields del: step.simps)
  qed
qed

lemma wait_keeps_named:
  assumes "\<forall>x\<in>set (timers c). snd (snd x) = SaveCallback \<longrightarrow> saveTimer c = Some (fst x) \<and> fst x \<noteq> 0"
  shows "\<forall>x\<in>set (timers (wait dt c)). snd (snd x) = SaveCallback \<longrightarrow>
           saveTimer (wait dt c) = Some (fst x) \<and> fst x \<noteq> 0"
  using assms by simp

lemma run_events_append:
  "run_events cp (evs @ evs') c = run_events cp evs' (run_events cp evs c)"
  by (induction evs arbitrary: c) simp_all

lemma burst_state:
  assumes "\<forall>x\<in>set (timers c). snd (snd x) = SaveCallback \<longrightarrow> saveTimer c = Some (fst x) \<and> fst x \<noteq> 0"
    and "0 < next_timer c" and "gaps_below 2000 edits"
  shows "saves (run_events cp (burst s edits) c) = saves c
    \<and> editor (run_events cp (burst s edits) c) = last_edit s edits
    \<and> (\<exists>h. armed SaveCallback (run_events cp (burst s edits) c)
          = [(h, time (run_events cp (burst s edits) c) + 2000, SaveCallback)])"
  using assms
proof (induction s edits arbitrary: c rule: burst.induct)
  case (1 s)
  then show ?case
    by (simp add: input_rearms [OF "1.prems"(1)] input_fields saves_input del: step.simps)
next
  case (2 s gap s' edits)
  let ?c1 = "step cp (Input s) c"
  let ?c2 = "wait gap ?c1"
  have gap: "gap < 2000" and rest: "gaps_below 2000 edits"
    using "2.prems"(3) by (simp_all add: gaps_below_def)
  have a1: "armed SaveCallback ?c1 = [(next_timer c, time c + 2000, SaveCallback)]"
    by (rule input_rearms [OF "2.prems"(1)])
  have n1: "\<forall>x\<in>set (timers ?c1). snd (snd x) = SaveCallback \<longrightarrow>
           saveTimer ?c1 = Some (fst x) \<and> fst x \<noteq> 0"
    by (rule input_keeps_named [OF "2.prems"(1,2)])
  have n2: "\<forall>x\<in>set (timers ?c2). snd (snd x) = SaveCallback \<longrightarrow>
           saveTimer ?c2 = Some (fst x) \<and> fst x \<noteq> 0"
    by (rule wait_keeps_named [OF n1])
  have p2: "0 < next_timer ?c2" by (simp add: input_fields del: step.simps)
  have s2: "saves ?c2 = saves c"
    using gap by (simp add: saves_wait_armed a1 input_fields saves_input del: step.simps)
  have "saves (run_events cp (burst s' edits) ?c2) = saves ?c2
    \<and> editor (run_events cp (burst s' edits) ?c2) = last_edit s' edits
    \<and> (\<exists>h. armed SaveCallback (run_events cp (burst s' edits) ?c2)
          = [(h, time (run_events cp (burst s' edits) ?c2) + 2000, SaveCallback)])"
    by (rule "2.IH" [OF n2 p2 rest])
  then show ?case using s2 by simp
qed

text \<open>
  Claim C8 (a burst of edits gives one save, of the last content). The page is in a
  state where the timer table and \<open>this.saveTimer\<close> fit together, as in every state the
  events reach. The learner makes a first edit and then further edits, each less than
  2000 ms after the one before; then at least 2000 ms pass. During the burst no save
  request is sent; at the end exactly one has been sent, with the content of the last
  edit, and no save timer is armed. An edit leaves exactly one save timer armed, the new
  one, due 2000 ms later: the one armed before is cancelled.
\<close>

theorem burst_gives_one_save:
  assumes "sched_inv c" and "gaps_below 2000 edits" and "2000 \<le> q"
  shows "saves (run_events cp (burst s edits) c) = saves c
    \<and> saves (run_events cp (burst s edits @ [Wait q]) c) = saves c @ [last_edit s edits]
    \<and> armed SaveCallback (run_events cp (burst s edits @ [Wait q]) c) = []
    \<and> armed SaveCallback (step cp (Input s) c) = [(next_timer c, time c + 2000, SaveCallback)]"
proof -
  note n = sched_inv_named [OF assms(1)]
  let ?b = "run_events cp (burst s edits) c"
  from burst_state [OF n assms(2), of cp s]
  obtain h where b: "saves ?b = saves c" "editor ?b = last_edit s edits"
    "armed SaveCallback ?b = [(h, time ?b + 2000, SaveCallback)]"
    by blast
  have "saves (wait q ?b) = saves c @ [last_edit s edits]"
    using b assms(3) by (simp add: saves_wait_armed)
  moreover have "armed SaveCallback (wait q ?b) = []"
    using b assms(3) by (simp add: armed_wait)
  ultimately show ?thesis
    using b(1) input_rearms [OF n(1), of cp s] by (simp add: run_events_append)
qed


theorem burst_gives_one_save_witness:
  "sched_inv init_client \<and> gaps_below 2000 [(500, ''ab''), (1999, ''abc'')]
   \<and> (2000::nat) \<le> 2000
   \<and> saves (run_events PublicCopy (burst ''a'' [(500, ''ab''), (1999, ''abc'')]) init_client)
       = []
   \<and> saves (run_events PublicCopy
        (burst ''a'' [(500, ''ab''), (1999, ''abc'')] @ [Wait 2000]) init_client)
       = [''abc'']
   \<and> armed SaveCallback (run_events PublicCopy
        (burst ''a'' [(500, ''ab''), (1999, ''abc'')] @ [Wait 2000]) init_client) = []"
proof -
  have i: "sched_inv init_client"
    by (simp add: sched_inv_def init_client_def)
  have g: "gaps_below 2000 [(500, ''ab''), (1999, ''abc'')]"
    by (simp add: gaps_below_def)
  have q: "(2000::nat) \<le> 2000" by simp
  have s0: "saves init_client = []"
    by (simp add: saves_def init_client_def map_filter_def)
  show ?thesis
    using i g q burst_gives_one_save [OF i g q, of PublicCopy "''a''"]
    by (simp add: s0)
qed

subsection \<open>Timers and requests in flight\<close>

lemma sched_inv_frame:
  "timers c' = timers c \<Longrightarrow> saveTimer c' = saveTimer c \<Longrightarrow> next_timer c' = next_timer c
   \<Longrightarrow> sched_inv c' = sched_inv c"
  by (simp add: sched_inv_def)

lemma sched_inv_input:
  assumes "sched_inv c"
  shows "sched_inv (step cp (Input s) c)"
proof -
  let ?old = "case saveTimer c of
        Some h \<Rightarrow> if h \<noteq> 0 then filter (\<lambda>t. fst t \<noteq> h) (timers c) else timers c
      | None \<Rightarrow> timers c"
  have sub: "set ?old \<subseteq> set (timers c)" by (auto split: option.splits)
  have named: "\<forall>x\<in>set (timers c). snd (snd x) = SaveCallback \<longrightarrow>
      saveTimer c = Some (fst x) \<and> fst x \<noteq> 0"
    by (rule sched_inv_named(1) [OF assms])
  have nosave: "\<forall>x\<in>set ?old. snd (snd x) \<noteq> SaveCallback"
  proof (cases "saveTimer c")
    case None
    then show ?thesis using named by auto
  next
    case (Some h)
    then show ?thesis using named by (cases "h = 0") auto
  qed
  have bound: "\<forall>x\<in>set ?old. 0 < fst x \<and> fst x < next_timer c"
    using assms sub by (auto simp: sched_inv_def list_all_iff)
  have dist: "distinct (map fst ?old)"
    using assms by (auto simp: sched_inv_def distinct_map_filter split: option.splits)
  have pos: "0 < next_timer c" using assms by (simp add: sched_inv_def)
  show ?thesis
    unfolding sched_inv_def input_fields
    using nosave bound dist pos by (auto simp: list_all_iff)
qed

lemma sched_inv_wait:
  assumes "sched_inv c"
  shows "sched_inv (wait dt c)"
  using assms by (auto simp: sched_inv_def list_all_iff distinct_map_filter)

lemma sched_inv_setTimeout_other:
  assumes "sched_inv c" and "cb \<noteq> SaveCallback"
  shows "sched_inv (snd (setTimeout cb n c))"
  using assms by (auto simp: sched_inv_def list_all_iff setTimeout_def)

lemma sched_inv_advance:
  assumes "sched_inv c"
  shows "sched_inv (completeTask_advance cp c)"
proof (cases cp)
  case PublicCopy
  then show ?thesis using assms
    by (simp add: completeTask_advance_def sched_inv_frame [of "loadTask t c" c for t])
next
  case EmbeddedCopy
  have m: "sched_inv (showCompletionMessage c)"
    unfolding showCompletionMessage_def using assms by (rule sched_inv_setTimeout_other) simp
  have "sched_inv (snd (setTimeout AdvanceCallback 2000 (showCompletionMessage c)))"
    using m by (rule sched_inv_setTimeout_other) simp
  then show ?thesis using EmbeddedCopy m by (simp add: completeTask_advance_def Let_def)
qed

lemma sched_inv_continue:
  assumes "sched_inv c"
  shows "sched_inv (continue cp k r c)"
proof (cases k)
  case SaveOnly
  then show ?thesis using assms
    by (simp add: saveCurrentText_rest_def setSaveStatus_def sched_inv_def)
next
  case SaveThenComplete
  then show ?thesis using assms
    by (simp add: saveCurrentText_rest_def setSaveStatus_def sched_inv_def Let_def)
next
  case Completed
  then show ?thesis using assms by (simp add: sched_inv_def)
next
  case ProgressRefreshed
  show ?thesis
  proof (cases r)
    case (OkProgress u l p)
    have "sched_inv (c\<lparr>currentUser := Some (u, l, p), currentTask := l\<rparr>)"
      using assms by (simp add: sched_inv_def)
    then show ?thesis using ProgressRefreshed OkProgress by (simp add: sched_inv_advance)
  qed (use ProgressRefreshed assms in simp_all)
next
  case (TextLoaded t)
  then show ?thesis using assms by (simp add: loadTaskText_rest_def sched_inv_def)
next
  case LastTaskUpdated
  then show ?thesis using assms by simp
qed

lemma sched_inv_resolve:
  assumes "sched_inv c"
  shows "sched_inv (resolve cp i r c)"
proof -
  have "sched_inv (c\<lparr>pending := filter (\<lambda>x. fst x \<noteq> i) (pending c)\<rparr>)"
    using assms by (simp add: sched_inv_def)
  then show ?thesis using assms
    by (auto simp: resolve_def sched_inv_continue split: option.splits)
qed

lemma sched_inv_step:
  assumes "sched_inv c"
  shows "sched_inv (step cp ev c)"
proof (cases ev)
  case (Input s)
  then show ?thesis using sched_inv_input [OF assms] by simp
next
  case ClickSave
  then show ?thesis using assms by (simp add: sched_inv_frame [of "saveCurrentText k c" c for k])
next
  case ClickComplete
  then show ?thesis using assms
    by (simp add: completeTask_def sched_inv_frame [of "saveCurrentText k c" c for k])
next
  case (ClickTask t)
  then show ?thesis using assms by (simp add: sched_inv_frame [of "loadTask t c" c])
next
  case (Wait dt)
  then show ?thesis using assms by (simp add: sched_inv_wait)
next
  case (Resolve i r)
  then show ?thesis using assms by (simp add: sched_inv_resolve)
next
  case FailedSignIn
  have "sched_inv (snd (setTimeout HideError 5000 c))"
    using assms by (rule sched_inv_setTimeout_other) simp
  then show ?thesis using FailedSignIn by (simp add: showError_def)
qed

lemma sched_inv_run:
  "sched_inv c \<Longrightarrow> sched_inv (run_events cp evs c)"
  by (induction evs arbitrary: c) (simp_all add: sched_inv_step)

lemma sched_inv_init: "sched_inv init_client"
  by (simp add: sched_inv_def init_client_def)

lemma same_key_distinct_short:
  "distinct (map f xs) \<Longrightarrow> \<forall>x\<in>set xs. f x = a \<Longrightarrow> length xs \<le> 1"
  by (cases xs; cases "tl xs") auto

lemma sched_inv_one_save_timer:
  assumes "sched_inv c"
  shows "length (armed SaveCallback c) \<le> 1"
proof (cases "saveTimer c")
  case None
  then have "armed SaveCallback c = []"
    using assms by (auto simp: sched_inv_def list_all_iff armed_def filter_empty_conv)
  then show ?thesis by simp
next
  case (Some h)
  have "distinct (map fst (armed SaveCallback c))"
    using assms by (simp add: sched_inv_def armed_def distinct_map_filter)
  moreover have "\<forall>x\<in>set (armed SaveCallback c). fst x = h"
    using assms Some by (auto simp: sched_inv_def list_all_iff armed_def)
  ultimately show ?thesis by (rule same_key_distinct_short)
qed

lemma in_flight_save:
  "in_flight t (saveCurrentText k c) = (if t = currentTask c then Suc (in_flight t c) else in_flight t c)"
  by (simp add: in_flight_def saveCurrentText_def)

text \<open>
  Claim C3 (at most one save request of a task in flight; a manual save cancels the
  pending timer), as stated, fails: the learner types \<open>''a''\<close>, clicks save at once, and
  2000 ms pass with no response yet. The click has sent a request and left the timer
  armed; the timer has fired and sent the same content again; two save requests of task
  1 are in flight.
\<close>

theorem manual_save_then_timer_counterexample:
  "\<not> in_flight 1 (run_events PublicCopy [Input ''a'', ClickSave, Wait 2000] init_client) \<le> 1"
  by (simp add: init_client_def scheduleAutoSave_def setSaveStatus_def setTimeout_def
       clearTimeout_def saveCurrentText_def fetch_def wait_def in_flight_def)

text \<open>
  Claim C3, amended. After any sequence of events on the page, of either copy, at most
  one save timer is armed, and an edit leaves exactly the new one armed. A click on save
  or on complete leaves the timer table as it is and sends one more save request of the
  current task at once, whatever is in flight.
\<close>

theorem one_save_timer_saves_not_gated:
  "length (armed SaveCallback (run_events cp evs init_client)) \<le> 1
   \<and> armed SaveCallback (run_events cp (evs @ [Input s]) init_client)
       = [(next_timer (run_events cp evs init_client),
           time (run_events cp evs init_client) + 2000, SaveCallback)]
   \<and> timers (run_events cp (evs @ [ClickSave]) init_client)
       = timers (run_events cp evs init_client)
   \<and> in_flight (currentTask (run_events cp evs init_client))
         (run_events cp (evs @ [ClickSave]) init_client)
       = Suc (in_flight (currentTask (run_events cp evs init_client))
                (run_events cp evs init_client))
   \<and> timers (run_events cp (evs @ [ClickComplete]) init_client)
       = timers (run_events cp evs init_client)
   \<and> in_flight (currentTask (run_events cp evs init_client))
         (run_events cp (evs @ [ClickComplete]) init_client)
       = Suc (in_flight (currentTask (run_events cp evs init_client))
                (run_events cp evs init_client))"
proof -
  have inv: "sched_inv (run_events cp evs init_client)"
    by (rule sched_inv_run [OF sched_inv_init])
  show ?thesis
    using sched_inv_one_save_timer [OF inv] input_rearms [OF sched_inv_named(1) [OF inv], of cp s]
    by (simp add: run_events_append in_flight_save completeTask_def del: step.simps(1))
qed


theorem one_save_timer_saves_not_gated_witness:
  "length (armed SaveCallback (run_events PublicCopy [Input ''a'', ClickSave] init_client)) \<le> 1
   \<and> timers (run_events PublicCopy ([Input ''a'', ClickSave] @ [ClickSave]) init_client)
       = [(1, 2000, SaveCallback)]
   \<and> in_flight 1 (run_events PublicCopy ([Input ''a'', ClickSave] @ [ClickSave]) init_client)
       = 2"
proof -
  have t: "timers (run_events PublicCopy [Input ''a'', ClickSave] init_client)
      = [(1, 2000, SaveCallback)]"
    by (simp add: init_client_def scheduleAutoSave_def setSaveStatus_def setTimeout_def
          clearTimeout_def saveCurrentText_def fetch_def)
  have c: "currentTask (run_events PublicCopy [Input ''a'', ClickSave] init_client) = 1"
    by (simp add: init_client_def)
  have f: "in_flight 1 (run_events PublicCopy [Input ''a'', ClickSave] init_client) = 1"
    by (simp add: init_client_def scheduleAutoSave_def setSaveStatus_def setTimeout_def
          clearTimeout_def saveCurrentText_def fetch_def in_flight_def)
  show ?thesis
    using one_save_timer_saves_not_gated [of PublicCopy "[Input ''a'', ClickSave]" "''b''"]
    by (simp only: t c f) simp
qed

subsection \<open>Moving on after a completion\<close>

lemma find_behind_others:
  "\<forall>x\<in>set xs. fst x \<noteq> m \<Longrightarrow> find (\<lambda>x. fst x = m) (xs @ ys) = find (\<lambda>x. fst x = m) ys"
  by (induction xs) auto

lemma filter_keeps_others:
  "\<forall>x\<in>set xs. fst x \<noteq> m \<Longrightarrow> filter (\<lambda>x. fst x \<noteq> m) xs = xs"
  by (induction xs) auto

lemma req_inv_fresh:
  assumes "req_inv c"
  shows "\<forall>x\<in>set (pending c). fst x \<noteq> next_req c"
    and "\<forall>x\<in>set (pending c). fst x \<noteq> Suc (next_req c)"
    and "\<forall>x\<in>set (pending c). fst x \<noteq> Suc (Suc (next_req c))"
  using assms by (auto simp: req_inv_def list_all_iff)

lemma currentTask_fire_all:
  "currentTask (fire_all cbs c)
     = currentTask c + int (length (filter (\<lambda>cb. cb = AdvanceCallback) cbs))"
proof (induction cbs arbitrary: c)
  case Nil
  then show ?case by simp
next
  case (Cons cb cbs)
  then show ?case by (cases cb) simp_all
qed

lemma currentTask_wait:
  "currentTask (wait dt c) = currentTask c
     + int (length (filter (\<lambda>x. fst (snd x) \<le> time c + dt) (armed AdvanceCallback c)))"
proof -
  let ?due = "filter (\<lambda>x. fst (snd x) \<le> time c + dt) (timers c)"
  let ?cbs = "map (\<lambda>x. snd (snd x)) (sort_key (\<lambda>x. fst (snd x)) ?due)"
  have "length (filter (\<lambda>cb. cb = AdvanceCallback) ?cbs)
     = length (filter (\<lambda>x. fst (snd x) \<le> time c + dt) (armed AdvanceCallback c))"
    by (simp add: filter_map comp_def length_filter_sort_key armed_def conj_commute)
  then show ?thesis
    by (simp add: wait_def Let_def currentTask_fire_all)
qed

lemmas client_defs = completion_def completeTask_def saveCurrentText_def fetch_def resolve_def
  saveCurrentText_rest_def setSaveStatus_def completeTask_advance_def setTimeout_def
  loadTask_def showCompletionMessage_def

lemma completion_embedded:
  assumes "req_inv c" and "ok r2"
  shows "currentTask (run_events EmbeddedCopy
            (completion (next_req c) r1 r2 (OkProgress u (currentTask c) p)) c) = currentTask c"
    and "time (run_events EmbeddedCopy
            (completion (next_req c) r1 r2 (OkProgress u (currentTask c) p)) c) = time c"
    and "timers (run_events EmbeddedCopy
            (completion (next_req c) r1 r2 (OkProgress u (currentTask c) p)) c)
         = timers c @ (next_timer c, time c + 3000, RemoveMessage)
             # (if currentTask c < 19
                then [(Suc (next_timer c), time c + 2000, AdvanceCallback)] else [])"
    and "sent (run_events EmbeddedCopy
            (completion (next_req c) r1 r2 (OkProgress u (currentTask c) p)) c)
         = sent c @ [PostText (currentTask c) (editor c), PostComplete (currentTask c),
                     GetUserProgress]"
  using assms(2) req_inv_fresh [OF assms(1)]
  by (simp_all add: client_defs find_behind_others filter_keeps_others Let_def)

lemma completion_public:
  assumes "req_inv c" and "ok r2"
  shows "currentTask (run_events PublicCopy
            (completion (next_req c) r1 r2 (OkProgress u (currentTask c) p)) c)
         = (if currentTask c < 19 then currentTask c + 1 else currentTask c)"
    and "time (run_events PublicCopy
            (completion (next_req c) r1 r2 (OkProgress u (currentTask c) p)) c) = time c"
    and "timers (run_events PublicCopy
            (completion (next_req c) r1 r2 (OkProgress u (currentTask c) p)) c) = timers c"
    and "sent (run_events PublicCopy
            (completion (next_req c) r1 r2 (OkProgress u (currentTask c) p)) c)
         = sent c @ [PostText (currentTask c) (editor c), PostComplete (currentTask c),
                     GetUserProgress]
           @ (if currentTask c < 19 then [GetText (currentTask c + 1)] else [])"
  using assms(2) req_inv_fresh [OF assms(1)]
  by (simp_all add: client_defs find_behind_others filter_keeps_others Let_def)

text \<open>
  Claim C9 (auto-advance 2 seconds after a completion), as stated, fails for the copy in
  \<open>src/public/app.js\<close>: the learner completes task 1, the three requests succeed, and
  the active task is 2 with the clock where it was and no timer armed.
\<close>

theorem public_copy_advances_at_once_counterexample:
  "currentTask (run_events PublicCopy
      (completion 0 OkPlain OkPlain (OkProgress ''alice'' 1 [(1, True)])) init_client) = 2
   \<and> time (run_events PublicCopy
      (completion 0 OkPlain OkPlain (OkProgress ''alice'' 1 [(1, True)])) init_client) = 0
   \<and> timers (run_events PublicCopy
      (completion 0 OkPlain OkPlain (OkProgress ''alice'' 1 [(1, True)])) init_client) = []"
  by (simp add: client_defs init_client_def)

text \<open>
  Claim C9, amended. The learner clicks complete on task \<open>T\<close>; the save ends in any way,
  the completion request succeeds, and the progress refresh succeeds with \<open>lastTask = T\<close>.

  The embedded copy stays on \<open>T\<close>, arms the timer of the completion message and, when
  \<open>T < 19\<close>, after it a timer due 2000 ms later whose callback loads the task after the
  one then active. So when time passes and nothing else happens, the active task is
  \<open>T\<close>, plus one for every advance timer that was armed before and has come due, plus
  one once the 2000 ms are over and \<open>T < 19\<close>: with no advance timer armed before, it is
  \<open>T\<close> before the 2000 ms are over and \<open>T + 1\<close> from then on.

  The copy in \<open>public\<close> is on \<open>T + 1\<close> at once when \<open>T < 19\<close>, with the clock and the
  timers as they were. When \<open>T \<ge> 19\<close> neither copy advances, and no request follows the
  three of the completion.
\<close>

theorem advance_after_completion:
  assumes "req_inv c" and "ok r2"
  shows "currentTask (run_events EmbeddedCopy
          (completion (next_req c) r1 r2 (OkProgress u (currentTask c) p)) c) = currentTask c
     \<and> timers (run_events EmbeddedCopy
          (completion (next_req c) r1 r2 (OkProgress u (currentTask c) p)) c)
        = timers c @ (next_timer c, time c + 3000, RemoveMessage)
            # (if currentTask c < 19
               then [(Suc (next_timer c), time c + 2000, AdvanceCallback)] else [])
     \<and> currentTask (run_events EmbeddedCopy
          (completion (next_req c) r1 r2 (OkProgress u (currentTask c) p) @ [Wait dt]) c)
        = currentTask c
          + int (length (filter (\<lambda>x. fst (snd x) \<le> time c + dt) (armed AdvanceCallback c)))
          + (if currentTask c < 19 \<and> 2000 \<le> dt then 1 else 0)
     \<and> currentTask (run_events PublicCopy
          (completion (next_req c) r1 r2 (OkProgress u (currentTask c) p)) c)
        = (if currentTask c < 19 then currentTask c + 1 else currentTask c)
     \<and> time (run_events PublicCopy
          (completion (next_req c) r1 r2 (OkProgress u (currentTask c) p)) c) = time c
     \<and> timers (run_events PublicCopy
          (completion (next_req c) r1 r2 (OkProgress u (currentTask c) p)) c) = timers c
     \<and> sent (run_events cp
          (completion (next_req c) r1 r2 (OkProgress u (currentTask c) p)) c)
        = sent c @ [PostText (currentTask c) (editor c), PostComplete (currentTask c),
                    GetUserProgress]
          @ (if cp = PublicCopy \<and> currentTask c < 19
             then [GetText (currentTask c + 1)] else [])"
proof -
  note e = completion_embedded [OF assms, of r1 u p]
  note q = completion_public [OF assms, of r1 u p]
  let ?ce = "run_events EmbeddedCopy
          (completion (next_req c) r1 r2 (OkProgress u (currentTask c) p)) c"
  have a: "armed AdvanceCallback ?ce = armed AdvanceCallback c
      @ (if currentTask c < 19
         then [(Suc (next_timer c), time c + 2000, AdvanceCallback)] else [])"
    by (simp add: armed_def e)
  have w: "currentTask (wait dt ?ce) = currentTask c
      + int (length (filter (\<lambda>x. fst (snd x) \<le> time c + dt) (armed AdvanceCallback c)))
      + (if currentTask c < 19 \<and> 2000 \<le> dt then 1 else 0)"
    by (simp add: currentTask_wait a e(1,2))
  show ?thesis
    using w by (cases cp) (simp_all add: e q run_events_append)
qed

theorem advance_after_completion_witness:
  "req_inv init_client \<and> ok OkPlain
   \<and> timers (run_events EmbeddedCopy
        (completion 0 NotOk OkPlain (OkProgress ''alice'' 1 [(1, True)])) init_client)
       = [(1, 3000, RemoveMessage), (2, 2000, AdvanceCallback)]
   \<and> currentTask (run_events EmbeddedCopy
        (completion 0 NotOk OkPlain (OkProgress ''alice'' 1 [(1, True)]) @ [Wait 1999])
        init_client) = 1
   \<and> currentTask (run_events EmbeddedCopy
        (completion 0 NotOk OkPlain (OkProgress ''alice'' 1 [(1, True)]) @ [Wait 2000])
        init_client) = 2
   \<and> currentTask (run_events PublicCopy
        (completion 0 NotOk OkPlain (OkProgress ''alice'' 1 [(1, True)])) init_client) = 2
   \<and> req_inv (init_client\<lparr>currentTask := 19\<rparr>)
   \<and> currentTask (run_events EmbeddedCopy
        (completion 0 NotOk OkPlain (OkProgress ''alice'' 19 []) @ [Wait 5000])
        (init_client\<lparr>currentTask := 19\<rparr>)) = 19
   \<and> timers (run_events EmbeddedCopy
        (completion 0 NotOk OkPlain (OkProgress ''alice'' 19 []))
        (init_client\<lparr>currentTask := 19\<rparr>)) = [(1, 3000, RemoveMessage)]
   \<and> req_inv completed_once
   \<and> currentTask (run_events EmbeddedCopy
        (completion 3 OkPlain OkPlain (OkProgress ''alice'' 1 [(1, True)]) @ [Wait 2000])
        completed_once) = 3"
proof -
  have r: "req_inv init_client" by (simp add: req_inv_def init_client_def)
  have r19: "req_inv (init_client\<lparr>currentTask := 19\<rparr>)"
    by (simp add: req_inv_def init_client_def)
  have k: "ok OkPlain" by simp
  have f: "currentTask init_client = 1" "next_req init_client = 0" "timers init_client = []"
    "next_timer init_client = 1" "time init_client = 0" "armed AdvanceCallback init_client = []"
    by (simp_all add: init_client_def armed_def)
  have once: "completed_once = init_client\<lparr>currentTask := 1,
      currentUser := Some (''alice'', 1, [(1, True)]), status := Saved,
      timers := [(1, 3000, RemoveMessage), (2, 2000, AdvanceCallback)], next_timer := 3,
      next_req := 3, sent := [PostText 1 [], PostComplete 1, GetUserProgress]\<rparr>"
    by (simp add: completed_once_def client_defs init_client_def)
  have g: "currentTask completed_once = 1" "next_req completed_once = 3"
    "time completed_once = 0"
    "armed AdvanceCallback completed_once = [(2, 2000, AdvanceCallback)]"
    by (simp_all add: once init_client_def armed_def)
  have r2: "req_inv completed_once"
    by (simp add: once req_inv_def init_client_def)
  have f19: "armed AdvanceCallback (init_client\<lparr>currentTask := 19\<rparr>) = []"
    by (simp add: init_client_def armed_def)
  show ?thesis
    using r r19 r2 k
      advance_after_completion [OF r k, of NotOk "''alice''" "[(1, True)]" 1999 EmbeddedCopy]
      advance_after_completion [OF r k, of NotOk "''alice''" "[(1, True)]" 2000 EmbeddedCopy]
      advance_after_completion [OF r19 k, of NotOk "''alice''" "[]" 5000 EmbeddedCopy]
      advance_after_completion [OF r2 k, of OkPlain "''alice''" "[(1, True)]" 2000 EmbeddedCopy]
    by (simp add: f g f19)
qed

end
